theory Spec2Isabelle
  imports Main "HOL-Library.Word"
begin

unbundle bit_operations_syntax

section \<open>AppleUSBUHCI: the UHCI host-controller core\<close>

text \<open>
  A shallow embedding of the controller engine of
  \<^verbatim>\<open>AppleUSBUHCI/Classes/AppleUSBUHCI.cpp\<close>.  Objects live in explicit stores
  indexed by addresses (natural numbers); a pointer is an \<open>addr option\<close> and
  \<open>None\<close> is \<^verbatim>\<open>NULL\<close>.  Hardware words are \<open>32 word\<close> and \<open>16 word\<close>.
  The model is the little-endian build, where \<^verbatim>\<open>HostToUSBLong\<close> and
  \<^verbatim>\<open>USBToHostLong\<close> are the identity.  \<^verbatim>\<open>USBLog\<close> output is not part of
  the state; \<^verbatim>\<open>USBError\<close> diagnostics that a property talks about are
  recorded as events.

  The headers that give the register bits and descriptor macros their values
  are not part of the sources at hand, so every such constant is a field of a
  record of constants that the functions take as their first argument.
\<close>

type_synonym addr = nat
type_synonym UInt16 = "16 word"
type_synonym UInt32 = "32 word"
type_synonym UInt64 = "64 word"

subsection \<open>GetFrameNumber\<close>

record frnum_consts =
  kUHCI_STS_HCH :: UInt16
  kUHCI_FRNUM_MASK :: UInt32
  kUHCI_FRNUM_COUNT :: UInt32

text \<open>
  The part of the controller that \<^verbatim>\<open>GetFrameNumber\<close> reads and writes.
  \<open>sts_reg\<close> is what \<^verbatim>\<open>ioRead16(kUHCI_STS)\<close> returns and \<open>frnum_reg\<close> what
  \<^verbatim>\<open>ReadFrameNumberRegister()\<close> returns.
\<close>

record frame_state =
  sts_reg :: UInt16
  frnum_reg :: UInt32
  idleSuspend :: bool
  lastFrameNumberLow :: UInt32
  lastFrameNumberHigh :: UInt32

text \<open>
  The two branches after the halted check compute the same \<open>newFrame\<close>; the locked
  branch also increments the high counter on an 11-bit wrap.  The lock-free branch
  retries until \<^verbatim>\<open>OSCompareAndSwap\<close> succeeds; with no other thread writing
  \<open>lastFrameNumberLow\<close> between the read and the swap the first attempt succeeds,
  which is the sequential behaviour modelled here.
\<close>

definition newFrameOf :: "frnum_consts \<Rightarrow> UInt32 \<Rightarrow> UInt32 \<Rightarrow> UInt32" where
  "newFrameOf c lastFrameNumber thisFrame =
     (let overflow = lastFrameNumber AND NOT (kUHCI_FRNUM_MASK c);
          lastFrame = lastFrameNumber AND kUHCI_FRNUM_MASK c
      in if lastFrame \<le> thisFrame then overflow + thisFrame
         else overflow + thisFrame + kUHCI_FRNUM_COUNT c)"

definition frameResult :: "UInt32 \<Rightarrow> UInt32 \<Rightarrow> UInt64" where
  "frameResult newFrame high = (ucast newFrame) OR push_bit 32 (ucast high)"

definition GetFrameNumber :: "frnum_consts \<Rightarrow> frame_state \<Rightarrow> UInt64 \<times> frame_state" where
  "GetFrameNumber c s =
     (if sts_reg s AND kUHCI_STS_HCH c \<noteq> 0 then (0, s)
      else if lastFrameNumberLow s \<ge> NOT (kUHCI_FRNUM_MASK c) then
        (let lastFrameNumber = lastFrameNumberLow s;
             thisFrame = frnum_reg s;
             lastFrame = lastFrameNumber AND kUHCI_FRNUM_MASK c;
             newFrame = newFrameOf c lastFrameNumber thisFrame;
             s1 = (if lastFrame \<le> thisFrame then s
                   else s\<lparr>lastFrameNumberHigh := lastFrameNumberHigh s + 1\<rparr>);
             s2 = s1\<lparr>lastFrameNumberLow := newFrame\<rparr>
         in (frameResult newFrame (lastFrameNumberHigh s2), s2))
      else
        (let lastFrameNumber = lastFrameNumberLow s;
             thisFrame = frnum_reg s;
             newFrame = newFrameOf c lastFrameNumber thisFrame;
             s2 = s\<lparr>lastFrameNumberLow := newFrame\<rparr>
         in (frameResult newFrame (lastFrameNumberHigh s2), s2)))"

text \<open>The constants of the UHCI register layout: HCHalted is bit 5 of the status
  register and the frame number register counts 11 bits.\<close>

definition uhci_frnum_consts :: frnum_consts where
  "uhci_frnum_consts =
     \<lparr>kUHCI_STS_HCH = 0x0020, kUHCI_FRNUM_MASK = 0x07FF, kUHCI_FRNUM_COUNT = 0x0800\<rparr>"

definition halted_frame_state :: frame_state where
  "halted_frame_state =
     \<lparr>sts_reg = 0x0020, frnum_reg = 5, idleSuspend = False,
      lastFrameNumberLow = 0x1234, lastFrameNumberHigh = 7\<rparr>"

subsection \<open>Descriptors and memory blocks\<close>

type_synonym UInt8 = "8 word"
type_synonym IOReturn = UInt32

text \<open>The two result codes the controller names itself, with the values of IOKit's
  \<^verbatim>\<open>IOReturn.h\<close>.\<close>

definition kIOReturnSuccess :: IOReturn where
  "kIOReturnSuccess = 0"

definition kIOReturnNoMemory :: IOReturn where
  "kIOReturnNoMemory = 0xE00002BD"

text \<open>
  \<^verbatim>\<open>AppleUHCITransferDescriptor\<close>: the four words shared with the hardware
  (\<^verbatim>\<open>GetSharedLogical()\<close>) and the software fields the controller uses.
\<close>

record td =
  ctrlStatus :: UInt32
  link :: UInt32
  token :: UInt32
  buffer :: UInt32
  logicalNext :: "addr option"
  alignBuffer :: "addr option"
  lastFrame :: UInt64
  lastRemaining :: UInt32
  command :: "addr option"
  pQH :: "addr option"
  lastTDofTransaction :: bool
  direction :: UInt8
  logicalBuffer :: "addr option"
  sharedPhysical :: UInt32

text \<open>\<^verbatim>\<open>AppleUHCIQueueHead\<close>: \<open>elink\<close> and \<open>hlink\<close> are the two shared words.\<close>

record qh =
  elink :: UInt32
  hlink :: UInt32
  qh_logicalNext :: "addr option"
  firstTD :: "addr option"
  lastTD :: "addr option"
  functionNumber :: UInt16
  endpointNumber :: UInt16
  qh_direction :: UInt8
  speed :: UInt16
  maxPacketSize :: UInt16
  qh_type :: UInt8
  stalled :: bool
  qh_sharedPhysical :: UInt32

text \<open>
  A memory block as \<^verbatim>\<open>AllocateTD\<close> and \<^verbatim>\<open>AllocateQH\<close> use it: \<open>numSlices\<close> is
  \<^verbatim>\<open>NumTDs()\<close> (\<^verbatim>\<open>NumQHs()\<close>), and \<open>slice i\<close> is what
  \<^verbatim>\<open>WithSharedMemory(GetLogicalPtr(i), GetPhysicalPtr(i))\<close> returns: the address
  of the new descriptor object with its initial contents, or \<^verbatim>\<open>NULL\<close>.
\<close>

record 'd mblock =
  numSlices :: nat
  slice :: "nat \<Rightarrow> (addr \<times> 'd) option"

subsection \<open>The transfer-descriptor pool\<close>

text \<open>
  \<open>td_newBlocks\<close> lists what the coming calls of
  \<^verbatim>\<open>AppleUHCItdMemoryBlock::NewMemoryBlock()\<close> return (\<open>None\<close> is a failed
  allocation; with the list empty the allocation fails as well).  Each call uses up
  the head of the list, whether it is a block or a failure.
\<close>

record td_pool =
  tds :: "addr \<Rightarrow> td"
  pFreeTD :: "addr option"
  pLastFreeTD :: "addr option"
  tdMBHead :: "td mblock list"
  td_newBlocks :: "td mblock option list"

text \<open>Modelled from the spec: \<^verbatim>\<open>AppleUHCITransferDescriptor::SetPhysicalLink\<close> is not
  in the sources at hand; the spec lists the hardware link pointer among the
  hardware-visible words of a descriptor, and this setter writes that word.\<close>

definition SetPhysicalLink :: "UInt32 \<Rightarrow> td \<Rightarrow> td" where
  "SetPhysicalLink next t = t\<lparr>link := next\<rparr>"

text \<open>The loop \<^verbatim>\<open>for (i=1; i < numTDs; i++)\<close> of \<^verbatim>\<open>AllocateTD\<close>, with its
  \<^verbatim>\<open>break\<close>.  It returns the local \<^verbatim>\<open>freeTD\<close> with the pool.\<close>

function sliceTDs :: "td mblock \<Rightarrow> nat \<Rightarrow> addr option \<Rightarrow> 'a td_pool_scheme
                      \<Rightarrow> addr option \<times> 'a td_pool_scheme" where
  "sliceTDs mb i freeTD s =
     (if i < numSlices mb then
        (case slice mb i of
           None \<Rightarrow> (pFreeTD s, s)
         | Some (a, v) \<Rightarrow>
             sliceTDs mb (Suc i) (Some a)
               (s\<lparr>tds := (tds s)(a := v\<lparr>logicalNext := pFreeTD s\<rparr>), pFreeTD := Some a\<rparr>))
      else (freeTD, s))"
  by pat_completeness auto
termination
  by (relation "measure (\<lambda>(mb, i, freeTD, s). numSlices mb - i)") auto

declare sliceTDs.simps [simp del]

definition td_NewMemoryBlock :: "'a td_pool_scheme \<Rightarrow> td mblock option \<times> 'a td_pool_scheme" where
  "td_NewMemoryBlock s =
     (case td_newBlocks s of
        [] \<Rightarrow> (None, s)
      | b # bs \<Rightarrow> (b, s\<lparr>td_newBlocks := bs\<rparr>))"

text \<open>Lines 1565--1583: the new block is linked in and sliced; the result is the local
  \<^verbatim>\<open>freeTD\<close> after the loop.\<close>

definition growTDs :: "td mblock \<Rightarrow> 'a td_pool_scheme \<Rightarrow> addr option \<times> 'a td_pool_scheme" where
  "growTDs mb s =
     (let s1 = s\<lparr>tdMBHead := mb # tdMBHead s\<rparr>;
          s2 = (case slice mb 0 of
                  None \<Rightarrow> s1\<lparr>pLastFreeTD := None, pFreeTD := None\<rparr>
                | Some (a, v) \<Rightarrow>
                    s1\<lparr>tds := (tds s1)(a := v), pLastFreeTD := Some a, pFreeTD := Some a\<rparr>)
      in sliceTDs mb 1 None s2)"

definition popTD :: "addr \<Rightarrow> addr option \<Rightarrow> 'a td_pool_scheme \<Rightarrow> 'a td_pool_scheme" where
  "popTD f pQHarg s =
     (let nxt = logicalNext (tds s f);
          s1 = s\<lparr>pFreeTD := nxt\<rparr>;
          s2 = (if nxt = None then s1\<lparr>pLastFreeTD := None\<rparr> else s1);
          t = (tds s2 f)\<lparr>logicalNext := None, alignBuffer := None, lastFrame := 0,
                          lastRemaining := 0, command := None, ctrlStatus := 0\<rparr>;
          t' = (SetPhysicalLink 0 t)\<lparr>token := 0, buffer := 0, pQH := pQHarg\<rparr>
      in s2\<lparr>tds := (tds s2)(f := t')\<rparr>)"

definition AllocateTD :: "addr option \<Rightarrow> 'a td_pool_scheme \<Rightarrow> addr option \<times> 'a td_pool_scheme" where
  "AllocateTD pQHarg s =
     (case pFreeTD s of
        Some a \<Rightarrow> (Some a, popTD a pQHarg s)
      | None \<Rightarrow>
          (case td_NewMemoryBlock s of
             (None, s1) \<Rightarrow> (None, s1)
           | (Some mb, s1) \<Rightarrow>
               (case growTDs mb s1 of
                  (None, s3) \<Rightarrow> (None, s3)
                | (Some f, s3) \<Rightarrow> (Some f, popTD f pQHarg s3))))"

definition DeallocateTD :: "addr \<Rightarrow> 'a td_pool_scheme \<Rightarrow> 'a td_pool_scheme" where
  "DeallocateTD pTD s =
     (let s1 = s\<lparr>tds := (tds s)(pTD := (tds s pTD)\<lparr>ctrlStatus := 0, logicalNext := None\<rparr>)\<rparr>
      in case pLastFreeTD s1 of
           Some l \<Rightarrow> s1\<lparr>tds := (tds s1)(l := (tds s1 l)\<lparr>logicalNext := Some pTD\<rparr>),
                       pLastFreeTD := Some pTD\<rparr>
         | None \<Rightarrow> s1\<lparr>pLastFreeTD := Some pTD, pFreeTD := Some pTD\<rparr>)"

text \<open>A block from which \<^verbatim>\<open>AllocateTD\<close> comes back with a descriptor: it has at
  least two slices and one of the first two descriptor objects could be made.\<close>

definition block_usable :: "'d mblock \<Rightarrow> bool" where
  "block_usable mb \<longleftrightarrow> 2 \<le> numSlices mb \<and> (slice mb 0 \<noteq> None \<or> slice mb 1 \<noteq> None)"

definition hw_zeroed :: "td \<Rightarrow> bool" where
  "hw_zeroed t \<longleftrightarrow> ctrlStatus t = 0 \<and> link t = 0 \<and> token t = 0 \<and> buffer t = 0"

text \<open>A chain of descriptors: \<open>xs\<close> is the list of descriptors met from \<open>p\<close> along
  \<^verbatim>\<open>_logicalNext\<close> until the pointer is \<open>e\<close>.\<close>

fun td_path :: "(addr \<Rightarrow> td) \<Rightarrow> addr option \<Rightarrow> addr list \<Rightarrow> addr option \<Rightarrow> bool" where
  "td_path h p [] e \<longleftrightarrow> p = e"
| "td_path h p (x # xs) e \<longleftrightarrow> p = Some x \<and> td_path h (logicalNext (h x)) xs e"

text \<open>
  The descriptor objects that the slicing of a block makes, in the order of their
  making: from slice \<open>i\<close> on, those of the slices up to the first whose object
  cannot be made; and for the whole block, that of slice 0 if it can be made,
  followed by those from slice 1 on.
\<close>

definition made_from :: "'d mblock \<Rightarrow> nat \<Rightarrow> addr list" where
  "made_from mb i =
     map (\<lambda>j. fst (the (slice mb j))) (takeWhile (\<lambda>j. slice mb j \<noteq> None) [i..<numSlices mb])"

definition made_addrs :: "'d mblock \<Rightarrow> addr list" where
  "made_addrs mb = (case slice mb 0 of None \<Rightarrow> [] | Some (a, v) \<Rightarrow> [a]) @ made_from mb 1"

text \<open>What is assumed of a new block of descriptors: the objects made from it are
  pairwise distinct, and the first one starts with a null next pointer
  (\<^verbatim>\<open>AllocateTD\<close> leaves that pointer as the constructor set it).\<close>

definition td_block_ok :: "td mblock \<Rightarrow> bool" where
  "td_block_ok mb \<longleftrightarrow>
     distinct (made_addrs mb)
     \<and> (case slice mb 0 of None \<Rightarrow> True | Some (a, v) \<Rightarrow> logicalNext v = None)"

text \<open>A concrete pool: no free descriptor, and two blocks of four descriptors each to
  come.  The descriptor objects start with stale hardware words.\<close>

definition td_stale :: td where
  "td_stale = \<lparr>ctrlStatus = 0x00800000, link = 0x1230, token = 0xFFE00069, buffer = 0x5000,
     logicalNext = None, alignBuffer = None, lastFrame = 0, lastRemaining = 0, command = None,
     pQH = None, lastTDofTransaction = False, direction = 0, logicalBuffer = None,
     sharedPhysical = 0x1000\<rparr>"

definition td_block :: "addr \<Rightarrow> td mblock" where
  "td_block base = \<lparr>numSlices = 4,
      slice = (\<lambda>i. if i < 4 then Some (base + i, td_stale) else None)\<rparr>"

definition pool0 :: td_pool where
  "pool0 = \<lparr>tds = (\<lambda>a. td_stale), pFreeTD = None, pLastFreeTD = None, tdMBHead = [],
     td_newBlocks = [Some (td_block 10), Some (td_block 20)]\<rparr>"

text \<open>The pool after four allocations: the first block is used up.\<close>

definition pool4 :: td_pool where
  "pool4 = snd (AllocateTD None (snd (AllocateTD None (snd (AllocateTD None
             (snd (AllocateTD None pool0)))))))"

text \<open>A block of four slices for which the first two descriptor objects cannot be
  made, and a pool that gets this block.\<close>

definition td_block_short :: "td mblock" where
  "td_block_short = \<lparr>numSlices = 4,
      slice = (\<lambda>i. if 2 \<le> i \<and> i < 4 then Some (30 + i, td_stale) else None)\<rparr>"

definition pool_short :: td_pool where
  "pool_short = \<lparr>tds = (\<lambda>a. td_stale), pFreeTD = None, pLastFreeTD = None, tdMBHead = [],
     td_newBlocks = [Some td_block_short]\<rparr>"

subsection \<open>The queue-head pool\<close>

datatype uhci_reg = kUHCI_CMD | kUHCI_STS | kUHCI_INTR | kUHCI_FRNUM | kUHCI_FRBASEADDR

text \<open>What \<^verbatim>\<open>HardwareInit\<close> does to the controller, in order: register writes, and the
  calls of the controller's own hardware operations.\<close>

datatype io_event =
    ioWrite16 uhci_reg UInt16
  | ioWrite32 uhci_reg UInt32
  | GlobalReset
  | Reset
  | InitializeBufferMemory
  | Command UInt16
  | Run bool

record sched_consts =
  kUHCI_NVFRAMES :: nat
  kUHCI_NINTR_QHS :: nat
  kUHCI_QH_T :: UInt32
  kUHCI_QH_Q :: UInt32
  kQHTypeDummy :: UInt8
  kUHCI_CMD_MAXP :: UInt16
  kUHCI_CMD_CF :: UInt16
  kUHCI_INTR_ALL :: UInt16

text \<open>
  The controller state that schedule construction touches.  \<open>qh_newBlocks\<close> lists
  what the coming calls of \<^verbatim>\<open>AppleUHCIqhMemoryBlock::NewMemoryBlock()\<close> return;
  \<open>io\<close> is the sequence of hardware accesses made so far.  The frame list is the
  memory of the frame-list buffer, whatever it holds before it is written.

  \<^verbatim>\<open>GlobalReset\<close>, \<^verbatim>\<open>Reset\<close> and \<^verbatim>\<open>Run\<close> talk to the controller through its
  command and status registers, and \<^verbatim>\<open>InitializeBufferMemory\<close> to the kernel's memory
  allocator; each call is one entry of \<open>io\<close>, and what the controller and the
  allocator answer is given with the state: \<open>Reset_result\<close> and \<open>Run_result\<close> are the
  status the two polling loops end with, and \<open>InitializeBufferMemory_result\<close> is the
  status of \<^verbatim>\<open>InitializeBufferMemory\<close> with the physical address of the frame list.
  \<^verbatim>\<open>InitializeBufferMemory\<close> stores that address in \<^verbatim>\<open>_framesPaddr\<close> (line 1917) as
  soon as the frame-list buffer is mapped, before it allocates the alignment buffers:
  \<open>InitializeBufferMemory_mapped\<close> tells whether a call got that far (a successful
  call always did).  Its other effects, the alignment-buffer queues, are not part of
  this state.
\<close>

record uhci_sched =
  qhs :: "addr \<Rightarrow> qh"
  pFreeQH :: "addr option"
  pLastFreeQH :: "addr option"
  qhMBHead :: "qh mblock list"
  qh_newBlocks :: "qh mblock option list"
  frameList :: "nat \<Rightarrow> UInt32"
  logicalFrameList :: "nat \<Rightarrow> addr option"
  framesPaddr :: UInt32
  lastQH :: "addr option"
  bulkQHStart :: "addr option"
  bulkQHEnd :: "addr option"
  fsControlQHStart :: "addr option"
  fsControlQHEnd :: "addr option"
  lsControlQHStart :: "addr option"
  lsControlQHEnd :: "addr option"
  intrQH :: "nat \<Rightarrow> addr option"
  io :: "io_event list"
  Reset_result :: IOReturn
  InitializeBufferMemory_result :: "IOReturn \<times> UInt32"
  InitializeBufferMemory_mapped :: bool
  Run_result :: IOReturn

function sliceQHs :: "qh mblock \<Rightarrow> nat \<Rightarrow> addr option \<Rightarrow> uhci_sched
                      \<Rightarrow> addr option \<times> uhci_sched" where
  "sliceQHs mb i freeQH s =
     (if i < numSlices mb then
        (case slice mb i of
           None \<Rightarrow> (pFreeQH s, s)
         | Some (a, v) \<Rightarrow>
             sliceQHs mb (Suc i) (Some a)
               (s\<lparr>qhs := (qhs s)(a := v\<lparr>qh_logicalNext := pFreeQH s\<rparr>), pFreeQH := Some a\<rparr>))
      else (freeQH, s))"
  by pat_completeness auto
termination
  by (relation "measure (\<lambda>(mb, i, freeQH, s). numSlices mb - i)") auto

declare sliceQHs.simps [simp del]

definition qh_NewMemoryBlock :: "uhci_sched \<Rightarrow> qh mblock option \<times> uhci_sched" where
  "qh_NewMemoryBlock s =
     (case qh_newBlocks s of
        [] \<Rightarrow> (None, s)
      | b # bs \<Rightarrow> (b, s\<lparr>qh_newBlocks := bs\<rparr>))"

definition growQHs :: "qh mblock \<Rightarrow> uhci_sched \<Rightarrow> addr option \<times> uhci_sched" where
  "growQHs mb s =
     (let s1 = s\<lparr>qhMBHead := mb # qhMBHead s\<rparr>;
          s2 = (case slice mb 0 of
                  None \<Rightarrow> s1\<lparr>pLastFreeQH := None, pFreeQH := None\<rparr>
                | Some (a, v) \<Rightarrow>
                    s1\<lparr>qhs := (qhs s1)(a := v), pLastFreeQH := Some a, pFreeQH := Some a\<rparr>)
      in sliceQHs mb 1 None s2)"

definition popQH :: "addr \<Rightarrow> UInt16 \<Rightarrow> UInt16 \<Rightarrow> UInt8 \<Rightarrow> UInt16 \<Rightarrow> UInt16 \<Rightarrow> UInt8
                     \<Rightarrow> uhci_sched \<Rightarrow> uhci_sched" where
  "popQH f fn ep dir spd mps ty s =
     (let nxt = qh_logicalNext (qhs s f);
          s1 = s\<lparr>pFreeQH := nxt\<rparr>;
          s2 = (if nxt = None then s1\<lparr>pLastFreeQH := None\<rparr> else s1);
          q = (qhs s2 f)\<lparr>qh_logicalNext := None, functionNumber := fn, endpointNumber := ep,
                          qh_direction := dir, speed := spd, maxPacketSize := mps,
                          qh_type := ty, stalled := False\<rparr>
      in s2\<lparr>qhs := (qhs s2)(f := q)\<rparr>)"

definition AllocateQH :: "UInt16 \<Rightarrow> UInt16 \<Rightarrow> UInt8 \<Rightarrow> UInt16 \<Rightarrow> UInt16 \<Rightarrow> UInt8
                          \<Rightarrow> uhci_sched \<Rightarrow> addr option \<times> uhci_sched" where
  "AllocateQH fn ep dir spd mps ty s =
     (case pFreeQH s of
        Some a \<Rightarrow> (Some a, popQH a fn ep dir spd mps ty s)
      | None \<Rightarrow>
          (case qh_NewMemoryBlock s of
             (None, s1) \<Rightarrow> (None, s1)
           | (Some mb, s1) \<Rightarrow>
               (case growQHs mb s1 of
                  (None, s3) \<Rightarrow> (None, s3)
                | (Some f, s3) \<Rightarrow> (Some f, popQH f fn ep dir spd mps ty s3))))"

subsection \<open>HardwareInit: building the schedule\<close>

text \<open>Modelled from the spec: \<^verbatim>\<open>AppleUHCIQueueHead::GetPhysicalAddrWithType\<close> is not in
  the sources at hand; the spec describes a link to a queue head as its physical
  address with the queue-head-type bit set.\<close>

definition GetPhysicalAddrWithType :: "sched_consts \<Rightarrow> qh \<Rightarrow> UInt32" where
  "GetPhysicalAddrWithType c q = qh_sharedPhysical q OR kUHCI_QH_Q c"

text \<open>Modelled from the spec: \<^verbatim>\<open>AppleUHCIQueueHead::SetPhysicalLink\<close> is not in the
  sources at hand; it writes the queue head's hardware head-link word.\<close>

definition qh_SetPhysicalLink :: "UInt32 \<Rightarrow> qh \<Rightarrow> qh" where
  "qh_SetPhysicalLink next q = q\<lparr>hlink := next\<rparr>"

text \<open>
  The statements that follow each allocation of an anchor queue head: the software
  next pointer, the hardware link (the terminate bit alone for the first queue
  head, else the physical address with type of the queue head it is linked to),
  \<^verbatim>\<open>firstTD = NULL\<close> and the element link terminated.
\<close>

definition setupQH :: "sched_consts \<Rightarrow> addr \<Rightarrow> addr option \<Rightarrow> uhci_sched \<Rightarrow> uhci_sched" where
  "setupQH c q nxt s =
     (let lnk = (case nxt of None \<Rightarrow> kUHCI_QH_T c
                 | Some n \<Rightarrow> GetPhysicalAddrWithType c (qhs s n))
      in s\<lparr>qhs := (qhs s)(q := (qh_SetPhysicalLink lnk ((qhs s q)\<lparr>qh_logicalNext := nxt\<rparr>))
                                \<lparr>firstTD := None, elink := kUHCI_QH_T c\<rparr>)\<rparr>)"

definition allocAnchor :: "sched_consts \<Rightarrow> addr option \<Rightarrow> uhci_sched
                           \<Rightarrow> addr option \<times> uhci_sched" where
  "allocAnchor c nxt s =
     (case AllocateQH 0 0 0 0 0 (kQHTypeDummy c) s of
        (None, s1) \<Rightarrow> (None, s1)
      | (Some q, s1) \<Rightarrow> (Some q, setupQH c q nxt s1))"

text \<open>The inner loop
  \<^verbatim>\<open>for (j=frame_period-1; j < kUHCI_NVFRAMES; j += frame_period)\<close> with
  \<^verbatim>\<open>frame_period = (1 << i)\<close>.  The C variables are \<^verbatim>\<open>int\<close>; the model counts in
  natural numbers, which agrees with C as long as \<open>2 ^ i\<close> and the frame count fit
  an \<^verbatim>\<open>int\<close>.\<close>

function frameLoop :: "sched_consts \<Rightarrow> addr \<Rightarrow> nat \<Rightarrow> nat \<Rightarrow> uhci_sched \<Rightarrow> uhci_sched" where
  "frameLoop c pQ i j s =
     (if j < kUHCI_NVFRAMES c then
        frameLoop c pQ i (j + 2 ^ i)
          (s\<lparr>frameList := (frameList s)(j := GetPhysicalAddrWithType c (qhs s pQ)),
             logicalFrameList := (logicalFrameList s)(j := Some pQ)\<rparr>)
      else s)"
  by pat_completeness auto
termination
  by (relation "measure (\<lambda>(c, pQ, i, j, s). kUHCI_NVFRAMES c - j)")
     (auto intro!: diff_less_mono2)

declare frameLoop.simps [simp del]

text \<open>The loop \<^verbatim>\<open>for (i=0; i < kUHCI_NINTR_QHS; i++)\<close>; \<open>lastQ\<close> is the local
  \<^verbatim>\<open>lastQH\<close>.  \<open>False\<close> is the \<^verbatim>\<open>return kIOReturnNoMemory\<close> inside the loop.\<close>

function intrLoop :: "sched_consts \<Rightarrow> nat \<Rightarrow> addr \<Rightarrow> uhci_sched \<Rightarrow> bool \<times> uhci_sched" where
  "intrLoop c i lastQ s =
     (if i < kUHCI_NINTR_QHS c then
        (case AllocateQH 0 0 0 0 0 (kQHTypeDummy c) s of
           (None, s1) \<Rightarrow> (False, s1)
         | (Some pQ, s1) \<Rightarrow>
             (let s2 = s1\<lparr>intrQH := (intrQH s1)(i := Some pQ)\<rparr>;
                  s3 = setupQH c pQ (Some lastQ) s2;
                  s4 = frameLoop c pQ i (2 ^ i - 1) s3
              in intrLoop c (Suc i) pQ s4))
      else (True, s))"
  by pat_completeness auto
termination
  by (relation "measure (\<lambda>(c, i, lastQ, s). kUHCI_NINTR_QHS c - i)") auto

declare intrLoop.simps [simp del]

text \<open>The queue-head part of \<^verbatim>\<open>HardwareInit\<close>, from the dummy queue head at the end of
  the list to the bandwidth-reclamation link.  \<open>False\<close> is
  \<^verbatim>\<open>return kIOReturnNoMemory\<close>.\<close>

definition buildSchedule :: "sched_consts \<Rightarrow> uhci_sched \<Rightarrow> bool \<times> uhci_sched" where
  "buildSchedule c s =
     (case allocAnchor c None s of
        (None, s1) \<Rightarrow> (False, s1)
      | (Some lastQ, s1) \<Rightarrow>
     (case allocAnchor c (Some lastQ) (s1\<lparr>lastQH := Some lastQ\<rparr>) of
        (None, s2) \<Rightarrow> (False, s2)
      | (Some bulkQ, s2) \<Rightarrow>
     (case allocAnchor c (Some bulkQ) (s2\<lparr>bulkQHStart := Some bulkQ, bulkQHEnd := Some bulkQ\<rparr>) of
        (None, s3) \<Rightarrow> (False, s3)
      | (Some fsQ, s3) \<Rightarrow>
     (case allocAnchor c (Some fsQ)
             (s3\<lparr>fsControlQHStart := Some fsQ, fsControlQHEnd := Some fsQ\<rparr>) of
        (None, s4) \<Rightarrow> (False, s4)
      | (Some lsQ, s4) \<Rightarrow>
     (case intrLoop c 0 lsQ (s4\<lparr>lsControlQHStart := Some lsQ, lsControlQHEnd := Some lsQ\<rparr>) of
        (False, s5) \<Rightarrow> (False, s5)
      | (True, s5) \<Rightarrow>
          (True, s5\<lparr>qhs := (qhs s5)(lastQ :=
                     qh_SetPhysicalLink (GetPhysicalAddrWithType c (qhs s5 fsQ) OR kUHCI_QH_T c)
                       (qhs s5 lastQ))\<rparr>))))))"

definition HardwareInit :: "sched_consts \<Rightarrow> uhci_sched \<Rightarrow> IOReturn \<times> uhci_sched" where
  "HardwareInit c s0 =
     (let s1 = s0\<lparr>io := io s0 @ [ioWrite16 kUHCI_INTR 0, GlobalReset, Reset]\<rparr>
      in if Reset_result s1 \<noteq> kIOReturnSuccess then (Reset_result s1, s1)
         else
           (let s2 = s1\<lparr>io := io s1 @ [InitializeBufferMemory]\<rparr>
            in if fst (InitializeBufferMemory_result s2) \<noteq> kIOReturnSuccess
               then (fst (InitializeBufferMemory_result s2),
                     if InitializeBufferMemory_mapped s2
                     then s2\<lparr>framesPaddr := snd (InitializeBufferMemory_result s2)\<rparr> else s2)
               else
                 (let s3 = s2\<lparr>framesPaddr := snd (InitializeBufferMemory_result s2)\<rparr>;
                      s4 = s3\<lparr>io := io s3 @ [ioWrite16 kUHCI_FRNUM 0,
                                              ioWrite32 kUHCI_FRBASEADDR (framesPaddr s3)]\<rparr>
                  in case buildSchedule c s4 of
                       (False, s5) \<Rightarrow> (kIOReturnNoMemory, s5)
                     | (True, s5) \<Rightarrow>
                         (let s6 = s5\<lparr>io := io s5 @
                                     [Command (kUHCI_CMD_MAXP c OR kUHCI_CMD_CF c),
                                      ioWrite16 kUHCI_INTR (kUHCI_INTR_ALL c), Run True]\<rparr>
                          in (Run_result s6, s6)))))"

subsection \<open>Notions for the properties of the schedule\<close>

text \<open>The level a frame slot resolves to, in the words of the specification: the
  largest \<open>i \<le> N\<close> with \<open>j mod 2 ^ i = 2 ^ i - 1\<close>.\<close>

fun slot_level :: "nat \<Rightarrow> nat \<Rightarrow> nat" where
  "slot_level 0 j = 0"
| "slot_level (Suc n) j = (if j mod 2 ^ Suc n = 2 ^ Suc n - 1 then Suc n else slot_level n j)"

text \<open>The free list of queue heads as a path along \<open>qh_logicalNext\<close> to \<^verbatim>\<open>NULL\<close>.\<close>

primrec qh_path :: "(addr \<Rightarrow> qh) \<Rightarrow> addr option \<Rightarrow> addr list \<Rightarrow> bool" where
  "qh_path h p [] \<longleftrightarrow> p = None"
| "qh_path h p (a # as) \<longleftrightarrow> p = Some a \<and> qh_path h (qh_logicalNext (h a)) as"

text \<open>The descriptor objects that slicing a block from slice \<open>i\<close> on makes, and those of
  the blocks still to come.\<close>

definition slice_addrs :: "'d mblock \<Rightarrow> nat \<Rightarrow> addr list" where
  "slice_addrs mb i = map fst (List.map_filter (slice mb) [i..<numSlices mb])"

definition pending_addrs :: "'d mblock option list \<Rightarrow> addr list" where
  "pending_addrs bs = concat (map (\<lambda>b. case b of None \<Rightarrow> [] | Some mb \<Rightarrow> slice_addrs mb 0) bs)"

text \<open>
  A well-formed queue-head pool: the free list is a proper list, the descriptors on
  it and those of the blocks to come are pairwise distinct, and a block has at
  least one slice, whose first descriptor object starts with a null next pointer
  (\<^verbatim>\<open>AllocateQH\<close> leaves that pointer as the constructor set it).
\<close>

definition block_ok :: "qh mblock \<Rightarrow> bool" where
  "block_ok mb \<longleftrightarrow> 0 < numSlices mb \<and> (\<forall>a v. slice mb 0 = Some (a, v) \<longrightarrow> qh_logicalNext v = None)"

definition qh_pool_ok :: "uhci_sched \<Rightarrow> addr list \<Rightarrow> bool" where
  "qh_pool_ok s F \<longleftrightarrow>
     qh_path (qhs s) (pFreeQH s) F
     \<and> distinct (F @ pending_addrs (qh_newBlocks s))
     \<and> (\<forall>mb. Some mb \<in> set (qh_newBlocks s) \<longrightarrow> block_ok mb)"

definition pool_addrs :: "uhci_sched \<Rightarrow> addr list \<Rightarrow> addr set" where
  "pool_addrs s F = set F \<union> set (pending_addrs (qh_newBlocks s))"

definition pool_wf :: "uhci_sched \<Rightarrow> bool" where
  "pool_wf s \<longleftrightarrow> (\<exists>F. qh_pool_ok s F)"

definition pool_set :: "uhci_sched \<Rightarrow> addr set" where
  "pool_set s = {a. \<exists>F. qh_path (qhs s) (pFreeQH s) F \<and> a \<in> set F}
                  \<union> set (pending_addrs (qh_newBlocks s))"

definition intrStep :: "sched_consts \<Rightarrow> nat \<Rightarrow> addr \<Rightarrow> addr \<Rightarrow> uhci_sched \<Rightarrow> uhci_sched" where
  "intrStep c i lastQ pQ s1 =
     frameLoop c pQ i (2 ^ i - 1)
       (setupQH c pQ (Some lastQ) (s1\<lparr>intrQH := (intrQH s1)(i := Some pQ)\<rparr>))"

definition anchors :: "uhci_sched \<Rightarrow> addr option list" where
  "anchors s = [lastQH s, bulkQHStart s, bulkQHEnd s, fsControlQHStart s, fsControlQHEnd s,
                lsControlQHStart s, lsControlQHEnd s]"

text \<open>The controller state at the point where \<^verbatim>\<open>HardwareInit\<close> starts to set up queue
  heads, when the reset and the buffer allocation succeeded.\<close>

definition preSchedule :: "uhci_sched \<Rightarrow> uhci_sched" where
  "preSchedule s0 =
     s0\<lparr>framesPaddr := snd (InitializeBufferMemory_result s0),
        io := io s0 @ [ioWrite16 kUHCI_INTR 0, GlobalReset, Reset, InitializeBufferMemory,
                       ioWrite16 kUHCI_FRNUM 0,
                       ioWrite32 kUHCI_FRBASEADDR (snd (InitializeBufferMemory_result s0))]\<rparr>"

text \<open>
  A small concrete controller: four virtual frames and three interrupt levels, the
  terminate and queue-head bits of the UHCI link words (bits 0 and 1), and a pool
  that gets one block of \<open>n\<close> queue heads at addresses \<open>100, 101, ...\<close> and no
  further block.  With eight queue heads the construction completes; with five the
  allocation of the second interrupt queue head fails.
\<close>

definition uhci_small :: sched_consts where
  "uhci_small = \<lparr>kUHCI_NVFRAMES = 4, kUHCI_NINTR_QHS = 3, kUHCI_QH_T = 1, kUHCI_QH_Q = 2,
     kQHTypeDummy = 0x80, kUHCI_CMD_MAXP = 0x80, kUHCI_CMD_CF = 0x40, kUHCI_INTR_ALL = 0x0F\<rparr>"

definition qh_blank :: "UInt32 \<Rightarrow> qh" where
  "qh_blank p = \<lparr>elink = 0, hlink = 0, qh_logicalNext = None, firstTD = None, lastTD = None,
     functionNumber = 0, endpointNumber = 0, qh_direction = 0, speed = 0, maxPacketSize = 0,
     qh_type = 0, stalled = False, qh_sharedPhysical = p\<rparr>"

definition qh_block :: "nat \<Rightarrow> qh mblock" where
  "qh_block n = \<lparr>numSlices = n,
      slice = (\<lambda>i. if i < n then Some (100 + i, qh_blank (0x1000 + 0x20 * of_nat i)) else None)\<rparr>"

definition sched0 :: "nat \<Rightarrow> uhci_sched" where
  "sched0 n = \<lparr>qhs = (\<lambda>a. qh_blank 0), pFreeQH = None, pLastFreeQH = None, qhMBHead = [],
     qh_newBlocks = [Some (qh_block n)], frameList = (\<lambda>j. 0), logicalFrameList = (\<lambda>j. None),
     framesPaddr = 0, lastQH = None, bulkQHStart = None, bulkQHEnd = None,
     fsControlQHStart = None, fsControlQHEnd = None, lsControlQHStart = None,
     lsControlQHEnd = None, intrQH = (\<lambda>i. None), io = [], Reset_result = 0,
     InitializeBufferMemory_result = (0, 0x8000), InitializeBufferMemory_mapped = True,
     Run_result = 0\<rparr>"

definition sched_done :: uhci_sched where
  "sched_done = snd (HardwareInit uhci_small (sched0 8))"


subsection \<open>The controller state seen by the scavenger and the dispatcher\<close>

text \<open>
  The bit masks and field accessors of a transfer descriptor (\<^verbatim>\<open>kUHCI_TD_*\<close>,
  \<^verbatim>\<open>UHCI_TD_GET_ACTLEN\<close>, \<^verbatim>\<open>UHCI_TD_GET_MAXLEN\<close>), the transfer types and
  directions of \<^verbatim>\<open>USB.h\<close>, \<^verbatim>\<open>TDToUSBError\<close> and the descriptor's
  \<^verbatim>\<open>GetPhysicalAddrWithType\<close> are declared outside the sources at hand; they are
  parameters.
\<close>

record uhci_consts = sched_consts +
  kUHCI_TD_ACTIVE :: UInt32
  kUHCI_TD_STALLED :: UInt32
  kUHCI_TD_SPD :: UInt32
  kUHCI_TD_BABBLE :: UInt32
  kUHCI_TD_D :: UInt32
  UHCI_TD_GET_ACTLEN :: "UInt32 \<Rightarrow> UInt32"
  UHCI_TD_GET_MAXLEN :: "UInt32 \<Rightarrow> UInt32"
  kUSBControl :: UInt8
  kUSBBulk :: UInt8
  kUSBOut :: UInt8
  TDToUSBError :: "UInt32 \<Rightarrow> IOReturn"
  td_GetPhysicalAddrWithType :: "td \<Rightarrow> UInt32"

text \<open>What the code reads of an \<^verbatim>\<open>IOUSBCommand\<close>: the action of its completion
  (null or not) and whether \<^verbatim>\<open>GetDMACommand()\<close> is an \<^verbatim>\<open>AppleUSBUHCIDMACommand\<close>
  with a memory descriptor.\<close>

record usb_command =
  USLCompletion_action :: "addr option"
  DMACommand_ok :: bool

text \<open>\<^verbatim>\<open>AppleUHCIIsochTransferDescriptor\<close> and \<^verbatim>\<open>IOUSBControllerIsochEndpoint\<close>, with the
  fields the scavenger touches.\<close>

record itd =
  itd_logicalNext :: "addr option"
  doneQueueLink :: "addr option"
  pEndpoint :: "addr option"
  lowLatency :: bool
  itd_alignBuffer :: "addr option"

record isoch_ep =
  onProducerQ :: UInt32
  onReversedList :: UInt32
  nextEP :: "addr option"
  ep_direction :: UInt8

text \<open>The calls that leave the class (completion callbacks, \<^verbatim>\<open>USBError\<close>, the root hub,
  the alignment-buffer queues, the isochronous superclass) are recorded in a trace, in
  program order.  \<open>Deallocate\<close> and \<open>ScavengeAnIsochTD\<close> mark the calls of
  \<^verbatim>\<open>DeallocateTD\<close> from the dispatcher and of \<^verbatim>\<open>scavengeAnIsochTD\<close>.\<close>

datatype usb_error =
    BadQueue addr
  | NullTransferDescriptor
  | MissingUSBCommand addr
  | MissingDMACommand addr
  | NullCommand addr
  | NullCompletionAction addr
  | TransactionsOutUnderrun
  | NoIsochEndpoint addr

datatype event =
    Complete addr IOReturn UInt32
  | UIMRootHubStatusChange
  | ReleaseCBIAlignmentBuffer addr
  | QueueAlignmentBuffer addr addr UInt16
  | USBError usb_error
  | Deallocate addr
  | ScavengeAnIsochTD addr
  | UpdateFrameList addr
  | ReleaseIsochAlignmentBuffer addr
  | QueueIsochAlignmentBuffer addr addr
  | SuperPutTDonDoneQueue addr addr
  | ReturnIsochDoneQueue addr
  | AddIsochFramesToSchedule addr

record uhci = td_pool +
  qheads :: "addr \<Rightarrow> qh"
  commands :: "addr \<Rightarrow> usb_command"
  events :: "event list"
  controlBulkTransactionsOut :: UInt32
  tailQH :: "addr option"
  intrQH_last :: "addr option"
  itds :: "addr \<Rightarrow> itd"
  isochEPs :: "addr \<Rightarrow> isoch_ep"
  alignDMACommand :: "addr \<Rightarrow> addr option"
  savedDoneQueueHead :: "addr option"
  producerCount :: UInt32
  consumerCount :: UInt32
  isochEPList :: "addr option"

text \<open>\<open>tailQH\<close> is \<^verbatim>\<open>_lastQH\<close>, \<open>intrQH_last\<close> is
  \<^verbatim>\<open>_intrQH[kUHCI_NINTR_QHS - 1]\<close>, and \<open>alignDMACommand\<close> is the \<^verbatim>\<open>dmaCommand\<close> field
  of an isochronous alignment buffer.\<close>

definition td_upd :: "addr \<Rightarrow> (td \<Rightarrow> td) \<Rightarrow> uhci \<Rightarrow> uhci" where
  "td_upd t f s = s\<lparr>tds := (tds s)(t := f (tds s t))\<rparr>"

definition qh_upd :: "addr \<Rightarrow> (qh \<Rightarrow> qh) \<Rightarrow> uhci \<Rightarrow> uhci" where
  "qh_upd q f s = s\<lparr>qheads := (qheads s)(q := f (qheads s q))\<rparr>"

definition itd_upd :: "addr \<Rightarrow> (itd \<Rightarrow> itd) \<Rightarrow> uhci \<Rightarrow> uhci" where
  "itd_upd t f s = s\<lparr>itds := (itds s)(t := f (itds s t))\<rparr>"

definition ep_upd :: "addr \<Rightarrow> (isoch_ep \<Rightarrow> isoch_ep) \<Rightarrow> uhci \<Rightarrow> uhci" where
  "ep_upd e f s = s\<lparr>isochEPs := (isochEPs s)(e := f (isochEPs s e))\<rparr>"

definition emit :: "event \<Rightarrow> uhci \<Rightarrow> uhci" where
  "emit e s = s\<lparr>events := events s @ [e]\<rparr>"

subsection \<open>UHCIUIMDoDoneQueueProcessing\<close>

text \<open>
  One descriptor of the done chain, up to the deallocation: the status to report, the
  residual, and at a last descriptor the completion.  The result is the pair of
  accumulators for the next descriptor and the state; \<open>None\<close> is a null
  \<^verbatim>\<open>pQH\<close> or \<^verbatim>\<open>_lastQH\<close> being dereferenced.
\<close>

definition doneStep :: "uhci_consts \<Rightarrow> IOReturn \<Rightarrow> addr \<Rightarrow> IOReturn \<Rightarrow> UInt32 \<Rightarrow> uhci
                        \<Rightarrow> (IOReturn \<times> UInt32 \<times> uhci) option" where
  "doneStep c forceErr t accumErr bufferSizeRemaining s =
     (let cs = ctrlStatus (tds s t);
          tk = token (tds s t);
          (errStatus, accumErr1, s1) =
            (if forceErr \<noteq> kIOReturnSuccess then (forceErr, accumErr, s)
             else if accumErr \<noteq> kIOReturnSuccess then (accumErr, accumErr, s)
             else (TDToUSBError c cs, TDToUSBError c cs,
                   if TDToUSBError c cs \<noteq> 0 \<and> cs AND kUHCI_TD_BABBLE c \<noteq> 0
                   then emit UIMRootHubStatusChange s else s));
          rem1 = bufferSizeRemaining + (UHCI_TD_GET_MAXLEN c tk - UHCI_TD_GET_ACTLEN c cs)
      in if lastTDofTransaction (tds s1 t) then
           (case command (tds s1 t) of
              None \<Rightarrow> Some (accumErr1, rem1, emit (USBError (NullCommand t)) s1)
            | Some cmd \<Rightarrow>
                (case USLCompletion_action (commands s1 cmd) of
                   None \<Rightarrow> Some (accumErr1, rem1, emit (USBError (NullCompletionAction t)) s1)
                 | Some act \<Rightarrow>
                     (let s2 = emit (Complete cmd errStatus rem1)
                                 (td_upd t (\<lambda>d. d\<lparr>lastTDofTransaction := False\<rparr>) s1)
                      in case pQH (tds s2 t) of
                           None \<Rightarrow> None
                         | Some q \<Rightarrow>
                             (if qh_type (qheads s2 q) = kUSBControl c \<or> qh_type (qheads s2 q) = kUSBBulk c
                              then
                                (if controlBulkTransactionsOut s2 = 0
                                 then Some (kIOReturnSuccess, 0, emit (USBError TransactionsOutUnderrun) s2)
                                 else
                                   (let s3 = s2\<lparr>controlBulkTransactionsOut := controlBulkTransactionsOut s2 - 1\<rparr>
                                    in if controlBulkTransactionsOut s3 = 0
                                       then (case tailQH s3 of
                                               None \<Rightarrow> None
                                             | Some l \<Rightarrow> Some (kIOReturnSuccess, 0,
                                                 qh_upd l (\<lambda>h. qh_SetPhysicalLink (hlink h OR kUHCI_QH_T c) h) s3))
                                       else Some (kIOReturnSuccess, 0, s3)))
                              else Some (kIOReturnSuccess, 0, s2)))))
         else Some (accumErr1, rem1, s1))"

text \<open>The \<^verbatim>\<open>while (pHCDoneTD != NULL)\<close> loop follows \<^verbatim>\<open>_logicalNext\<close> with no bound;
  \<open>None\<close> is also the loop that does not end.\<close>

partial_function (option) doneLoop :: "uhci_consts \<Rightarrow> IOReturn \<Rightarrow> addr option \<Rightarrow> addr option
      \<Rightarrow> IOReturn \<Rightarrow> UInt32 \<Rightarrow> uhci \<Rightarrow> uhci option" where
  "doneLoop c forceErr stopAt pHCDoneTD accumErr bufferSizeRemaining s =
     (case pHCDoneTD of
        None \<Rightarrow> Some s
      | Some t \<Rightarrow>
          if Some t = stopAt then Some s
          else
            (let nextTD = logicalNext (tds s t)
             in case doneStep c forceErr t accumErr bufferSizeRemaining s of
                  None \<Rightarrow> None
                | Some (accumErr', rem', s') \<Rightarrow>
                    doneLoop c forceErr stopAt nextTD accumErr' rem'
                      (DeallocateTD t (emit (Deallocate t)
                         (td_upd t (\<lambda>d. d\<lparr>logicalBuffer := None\<rparr>) s')))))"

definition UHCIUIMDoDoneQueueProcessing :: "uhci_consts \<Rightarrow> addr option \<Rightarrow> IOReturn \<Rightarrow> addr option
      \<Rightarrow> uhci \<Rightarrow> uhci option" where
  "UHCIUIMDoDoneQueueProcessing c pHCDoneTD forceErr stopAt s =
     doneLoop c forceErr stopAt pHCDoneTD kIOReturnSuccess 0 s"

subsection \<open>scavengeQueueHeads\<close>

text \<open>The local variables of \<^verbatim>\<open>scavengeQueueHeads\<close> that live across iterations; the two
  counters \<^verbatim>\<open>leCount\<close> and \<^verbatim>\<open>tdCount\<close> are arguments of the loops (they stay below
  150002, so no 32-bit wrap-around).\<close>

record scav_vars =
  doneQueue :: "addr option"
  doneTail :: "addr option"
  qHead :: "addr option"
  qTD :: "addr option"
  qEnd :: "addr option"
  lastToggle :: UInt32
  TDisHalted :: bool
  shortTransfer :: bool

definition actLength_of :: "uhci_consts \<Rightarrow> UInt32 \<Rightarrow> UInt16" where
  "actLength_of c cs = ucast (UHCI_TD_GET_ACTLEN c cs)"

text \<open>Lines 1262--1299: the status of a descriptor is looked at only while neither flag
  is set.  \<open>None\<close> is the \<^verbatim>\<open>break\<close> at a descriptor that is still active.\<close>

definition examineTD :: "uhci_consts \<Rightarrow> addr \<Rightarrow> addr \<Rightarrow> scav_vars \<Rightarrow> uhci
                          \<Rightarrow> (scav_vars \<times> uhci) option" where
  "examineTD c q t v s =
     (let cs = ctrlStatus (tds s t)
      in if \<not> TDisHalted v \<and> \<not> shortTransfer v then
           (if cs AND kUHCI_TD_ACTIVE c \<noteq> 0 then None
            else if cs AND kUHCI_TD_STALLED c \<noteq> 0
                 then Some (v\<lparr>TDisHalted := True\<rparr>, qh_upd q (\<lambda>h. h\<lparr>stalled := True\<rparr>) s)
            else if cs AND kUHCI_TD_SPD c \<noteq> 0
                    \<and> ucast (actLength_of c cs) < UHCI_TD_GET_MAXLEN c (token (tds s t))
                 then Some (v\<lparr>TDisHalted := False, shortTransfer := True,
                               lastToggle := token (tds s t) AND kUHCI_TD_D c\<rparr>, s)
            else Some (v\<lparr>TDisHalted := False\<rparr>, s))
         else Some (v, s))"

text \<open>Lines 1300--1333: the alignment buffer of the descriptor.\<close>

definition alignStep :: "uhci_consts \<Rightarrow> addr \<Rightarrow> uhci \<Rightarrow> uhci" where
  "alignStep c t s =
     (case alignBuffer (tds s t) of
        None \<Rightarrow> s
      | Some ab \<Rightarrow>
          if direction (tds s t) = kUSBOut c \<or> actLength_of c (ctrlStatus (tds s t)) = 0
          then td_upd t (\<lambda>d. d\<lparr>alignBuffer := None\<rparr>) (emit (ReleaseCBIAlignmentBuffer ab) s)
          else (case command (tds s t) of
                  None \<Rightarrow> emit (USBError (MissingUSBCommand t)) s
                | Some cmd \<Rightarrow>
                    if DMACommand_ok (commands s cmd)
                    then td_upd t (\<lambda>d. d\<lparr>alignBuffer := None\<rparr>)
                           (emit (QueueAlignmentBuffer ab cmd (actLength_of c (ctrlStatus (tds s t)))) s)
                    else emit (USBError (MissingDMACommand t)) s))"

text \<open>Lines 1368--1375: the loop that rewrites the data toggle of every descriptor from
  \<open>tempTD\<close> to the end of the chain; it has no bound.\<close>

partial_function (option) flipToggles :: "uhci_consts \<Rightarrow> (addr \<Rightarrow> td) \<Rightarrow> addr option \<Rightarrow> UInt32
      \<Rightarrow> ((addr \<Rightarrow> td) \<times> UInt32) option" where
  "flipToggles c h tempTD lastTog =
     (case tempTD of
        None \<Rightarrow> Some (h, lastTog)
      | Some t \<Rightarrow>
          (let lt = (if lastTog \<noteq> 0 then 0 else kUHCI_TD_D c);
               tk = (token (h t) AND NOT (kUHCI_TD_D c)) OR lt
           in flipToggles c (h(t := (h t)\<lparr>token := tk\<rparr>)) (logicalNext (h t)) lt))"

text \<open>Lines 1334--1395: a descriptor flagged last of its transaction.  The result carries
  whether the loop is left (\<^verbatim>\<open>break\<close> at a null successor); \<open>None\<close> is a null
  \<^verbatim>\<open>doneTail\<close> being dereferenced, or the toggle loop not ending.\<close>

definition harvestTD :: "uhci_consts \<Rightarrow> addr \<Rightarrow> addr \<Rightarrow> scav_vars \<Rightarrow> uhci
                          \<Rightarrow> (bool \<times> scav_vars \<times> uhci) option" where
  "harvestTD c q t v s =
     (case (if doneQueue v = None then Some (v\<lparr>doneQueue := qHead v\<rparr>, s)
            else (case doneTail v of
                    None \<Rightarrow> None
                  | Some dt \<Rightarrow> Some (v, td_upd dt (\<lambda>d. d\<lparr>logicalNext := qHead v\<rparr>) s))) of
        None \<Rightarrow> None
      | Some (v1, s1) \<Rightarrow>
          (let nxt = logicalNext (tds s1 t);
               v2 = v1\<lparr>doneTail := Some t, qTD := nxt, qHead := nxt\<rparr>;
               s2 = td_upd t (\<lambda>d. d\<lparr>logicalNext := None\<rparr>) s1
           in case nxt of
                None \<Rightarrow> Some (True, v2, emit (USBError NullTransferDescriptor) s2)
              | Some n \<Rightarrow>
                  (case (if \<not> TDisHalted v2 \<and> shortTransfer v2 then
                           (case (if qh_type (qheads s2 q) \<noteq> kUSBControl c
                                     \<and> token (tds s2 n) AND kUHCI_TD_D c = lastToggle v2
                                  then flipToggles c (tds s2) (Some n) (lastToggle v2)
                                  else Some (tds s2, lastToggle v2)) of
                              None \<Rightarrow> None
                            | Some (h, lt) \<Rightarrow>
                                Some (v2\<lparr>lastToggle := lt\<rparr>,
                                      qh_upd q (\<lambda>d. d\<lparr>elink := td_GetPhysicalAddrWithType c (h n)\<rparr>)
                                        (s2\<lparr>tds := h\<rparr>)))
                         else if TDisHalted v2
                              then Some (v2, qh_upd q (\<lambda>d. d\<lparr>elink := kUHCI_QH_T c\<rparr>) s2)
                         else Some (v2, s2)) of
                     None \<Rightarrow> None
                   | Some (v3, s3) \<Rightarrow>
                       Some (False, v3\<lparr>TDisHalted := False, shortTransfer := False\<rparr>,
                             qh_upd q (\<lambda>d. d\<lparr>firstTD := Some n\<rparr>) s3))))"

text \<open>The inner loop, lines 1257--1408, with \<open>n\<close> the value of \<^verbatim>\<open>tdCount\<close>.\<close>

function walkTDs :: "uhci_consts \<Rightarrow> addr \<Rightarrow> nat \<Rightarrow> scav_vars \<Rightarrow> uhci
                      \<Rightarrow> (nat \<times> scav_vars \<times> uhci) option" where
  "walkTDs c q n v s =
     (case qTD v of
        None \<Rightarrow> Some (n, v, s)
      | Some t \<Rightarrow>
          if Some t = qEnd v then Some (n, v, s)
          else if \<not> n < 150000 then Some (Suc n, v, s)
          else
            (case examineTD c q t v s of
               None \<Rightarrow> Some (Suc n, v, s)
             | Some (v1, s1) \<Rightarrow>
                 (let s2 = alignStep c t s1
                  in if lastTDofTransaction (tds s2 t) then
                       (case harvestTD c q t v1 s2 of
                          None \<Rightarrow> None
                        | Some (brk, v3, s3) \<Rightarrow>
                            if brk then Some (Suc n, v3, s3) else walkTDs c q (Suc n) v3 s3)
                     else
                       (case logicalNext (tds s2 t) of
                          None \<Rightarrow> Some (Suc n, v1\<lparr>qTD := None\<rparr>,
                                         emit (USBError NullTransferDescriptor) s2)
                        | Some t' \<Rightarrow> walkTDs c q (Suc n) (v1\<lparr>qTD := Some t'\<rparr>) s2))))"
  by pat_completeness auto
termination
  by (relation "measure (\<lambda>(c, q, n, v, s). 150000 - n)") auto

declare walkTDs.simps [simp del]

text \<open>The body of the outer loop for one list element, lines 1231--1414.  The list that
  starts at the last interrupt queue head holds queue heads only, so the
  \<^verbatim>\<open>OSDynamicCast\<close> of line 1231 succeeds.\<close>

definition scavengeQH :: "uhci_consts \<Rightarrow> addr \<Rightarrow> scav_vars \<Rightarrow> uhci \<Rightarrow> (scav_vars \<times> uhci) option" where
  "scavengeQH c q v s =
     (if qh_type (qheads s q) \<noteq> kQHTypeDummy c \<and> \<not> stalled (qheads s q) then
        (let qH = firstTD (qheads s q);
             qE = lastTD (qheads s q);
             s1 = (if (qH = None \<or> qE = None) \<and> qH \<noteq> qE
                   then emit (USBError (BadQueue q)) s else s);
             v1 = v\<lparr>qHead := qH, qTD := qH, qEnd := qE, TDisHalted := False, shortTransfer := False\<rparr>
         in case walkTDs c q 0 v1 s1 of
              None \<Rightarrow> None
            | Some (n, v', s') \<Rightarrow> Some (v', s'))
      else Some (v, s))"

function scavLoop :: "uhci_consts \<Rightarrow> addr option \<Rightarrow> nat \<Rightarrow> scav_vars \<Rightarrow> uhci
                       \<Rightarrow> (nat \<times> scav_vars \<times> uhci) option" where
  "scavLoop c pLE leCount v s =
     (case pLE of
        None \<Rightarrow> Some (leCount, v, s)
      | Some q \<Rightarrow>
          if \<not> leCount < 150000 then Some (Suc leCount, v, s)
          else
            (case scavengeQH c q v s of
               None \<Rightarrow> None
             | Some (v', s') \<Rightarrow> scavLoop c (qh_logicalNext (qheads s' q)) (Suc leCount) v' s'))"
  by pat_completeness auto
termination
  by (relation "measure (\<lambda>(c, pLE, leCount, v, s). 150000 - leCount)") auto

declare scavLoop.simps [simp del]

text \<open>The locals at entry; those without an initialiser are assigned before they are
  read.\<close>

definition scav_init :: scav_vars where
  "scav_init = \<lparr>doneQueue = None, doneTail = None, qHead = None, qTD = None, qEnd = None,
                lastToggle = 0, TDisHalted = False, shortTransfer = False\<rparr>"

definition scavengeQueueHeads :: "uhci_consts \<Rightarrow> addr option \<Rightarrow> uhci \<Rightarrow> uhci option" where
  "scavengeQueueHeads c pLE s =
     (case scavLoop c pLE 0 scav_init s of
        None \<Rightarrow> None
      | Some (n, v, s1) \<Rightarrow>
          (case doneQueue v of
             None \<Rightarrow> Some s1
           | Some d \<Rightarrow> UHCIUIMDoDoneQueueProcessing c (Some d) kIOReturnSuccess None s1))"

subsection \<open>scavengeIsochTransactions\<close>

text \<open>\<^verbatim>\<open>PutTDonDoneQueue\<close> and \<^verbatim>\<open>scavengeAnIsochTD\<close>; \<^verbatim>\<open>UpdateFrameList\<close> and the
  superclass's \<^verbatim>\<open>PutTDonDoneQueue\<close> are outside the sources at hand and appear as
  events.\<close>

definition PutTDonDoneQueue :: "uhci_consts \<Rightarrow> addr \<Rightarrow> addr \<Rightarrow> uhci \<Rightarrow> uhci" where
  "PutTDonDoneQueue c pED pTD s =
     emit (SuperPutTDonDoneQueue pED pTD)
       (case itd_alignBuffer (itds s pTD) of
          None \<Rightarrow> s
        | Some ab \<Rightarrow>
            itd_upd pTD (\<lambda>d. d\<lparr>itd_alignBuffer := None\<rparr>)
              (if ep_direction (isochEPs s pED) = kUSBOut c
               then emit (ReleaseIsochAlignmentBuffer ab) s
               else (case alignDMACommand s ab of
                       Some dma \<Rightarrow> emit (QueueIsochAlignmentBuffer ab dma) s
                     | None \<Rightarrow> s)))"

definition scavengeAnIsochTD :: "uhci_consts \<Rightarrow> addr \<Rightarrow> uhci \<Rightarrow> uhci" where
  "scavengeAnIsochTD c pTD s0 =
     (let s = emit (ScavengeAnIsochTD pTD) s0
      in case pEndpoint (itds s pTD) of
           None \<Rightarrow> emit (USBError (NoIsochEndpoint pTD)) s
         | Some pEP \<Rightarrow>
             PutTDonDoneQueue c pEP pTD
               (if \<not> lowLatency (itds s pTD) then emit (UpdateFrameList pTD) s else s))"

text \<open>The reversal loop, lines 1104--1118.  It ends when the consumer count reaches the
  producer count, so after at most \<open>2 ^ 32\<close> rounds; \<open>None\<close> is the null
  \<^verbatim>\<open>_doneQueueLink\<close> that the next round would dereference.\<close>

function reverseLoop :: "UInt32 \<Rightarrow> UInt32 \<Rightarrow> addr \<Rightarrow> addr option \<Rightarrow> uhci
                          \<Rightarrow> (UInt32 \<times> addr \<times> uhci) option" where
  "reverseLoop cachedProducer cachedConsumer pDoneEl prevEl s =
     (let s1 = itd_upd pDoneEl (\<lambda>d. d\<lparr>itd_logicalNext := prevEl\<rparr>) s;
          cachedConsumer' = cachedConsumer + 1;
          s2 = (case pEndpoint (itds s1 pDoneEl) of
                  None \<Rightarrow> s1
                | Some e \<Rightarrow> ep_upd e (\<lambda>p. p\<lparr>onProducerQ := onProducerQ p - 1,
                                              onReversedList := onReversedList p + 1\<rparr>) s1)
      in if cachedProducer = cachedConsumer' then Some (cachedConsumer', pDoneEl, s2)
         else (case doneQueueLink (itds s2 pDoneEl) of
                 None \<Rightarrow> None
               | Some nxt \<Rightarrow> reverseLoop cachedProducer cachedConsumer' nxt (Some pDoneEl) s2))"
  by pat_completeness auto
termination
proof (relation "measure (\<lambda>(p, c, d, e, s). unat (p - c - 1))", goal_cases)
  case 1
  show ?case by simp
next
  case (2 p c d e s s1 c' s2 nxt)
  have ne: "p \<noteq> c + 1" using 2 by simp
  have nz: "p - c - 1 \<noteq> 0" using ne by (metis diff_diff_eq eq_iff_diff_eq_0)
  have e: "p - (c + 1) - 1 = (p - c - 1) - 1" by (simp add: algebra_simps)
  have "0 < unat (p - c - 1)" using nz by (simp add: unat_gt_0)
  then have "unat (p - (c + 1) - 1) < unat (p - c - 1)"
    unfolding e using unat_minus_one[OF nz] by linarith
  then show ?case using 2 by simp
qed

declare reverseLoop.simps [simp del]

text \<open>The delivery loop, lines 1125--1136, and the loop over the isochronous endpoints,
  lines 1140--1149; both follow a pointer chain with no bound.\<close>

partial_function (option) deliverLoop :: "uhci_consts \<Rightarrow> addr option \<Rightarrow> uhci \<Rightarrow> uhci option" where
  "deliverLoop c pDoneEl s =
     (case pDoneEl of
        None \<Rightarrow> Some s
      | Some t \<Rightarrow>
          (let nextEl = itd_logicalNext (itds s t);
               s1 = itd_upd t (\<lambda>d. d\<lparr>itd_logicalNext := None\<rparr>) s;
               s2 = (case pEndpoint (itds s1 t) of
                       None \<Rightarrow> s1
                     | Some e \<Rightarrow> ep_upd e (\<lambda>p. p\<lparr>onReversedList := onReversedList p - 1\<rparr>) s1)
           in deliverLoop c nextEl (scavengeAnIsochTD c t s2)))"

partial_function (option) epLoop :: "addr option \<Rightarrow> uhci \<Rightarrow> uhci option" where
  "epLoop pEP s =
     (case pEP of
        None \<Rightarrow> Some s
      | Some e \<Rightarrow>
          epLoop (nextEP (isochEPs s e))
            (emit (AddIsochFramesToSchedule e) (emit (ReturnIsochDoneQueue e) s)))"

definition scavengeIsochTransactions :: "uhci_consts \<Rightarrow> uhci \<Rightarrow> uhci option" where
  "scavengeIsochTransactions c s =
     (let cachedProducer = producerCount s;
          cachedConsumer = consumerCount s
      in case (case savedDoneQueueHead s of
                 None \<Rightarrow> Some s
               | Some d \<Rightarrow>
                   if cachedConsumer \<noteq> cachedProducer then
                     (case reverseLoop cachedProducer cachedConsumer d None s of
                        None \<Rightarrow> None
                      | Some (cachedConsumer', pDoneEl, s1) \<Rightarrow>
                          deliverLoop c (Some pDoneEl) (s1\<lparr>consumerCount := cachedConsumer'\<rparr>))
                   else Some s) of
           None \<Rightarrow> None
         | Some s2 \<Rightarrow> epLoop (isochEPList s2) s2)"

subsection \<open>ProcessCompletedTransactions\<close>

definition ProcessCompletedTransactions :: "uhci_consts \<Rightarrow> uhci \<Rightarrow> uhci option" where
  "ProcessCompletedTransactions c s =
     (case scavengeIsochTransactions c s of
        None \<Rightarrow> None
      | Some s1 \<Rightarrow> scavengeQueueHeads c (intrQH_last s1) s1)"

subsection \<open>Notions for the properties of the dispatcher\<close>

text \<open>The free list of descriptors: a chain from \<^verbatim>\<open>_pFreeTD\<close> to \<^verbatim>\<open>NULL\<close> without
  repetition, with \<^verbatim>\<open>_pLastFreeTD\<close> at its last descriptor.\<close>

definition free_list :: "'a td_pool_scheme \<Rightarrow> addr list \<Rightarrow> bool" where
  "free_list s F \<longleftrightarrow>
     td_path (tds s) (pFreeTD s) F None \<and> distinct F
     \<and> pLastFreeTD s = (if F = [] then None else Some (last F))"

text \<open>The callback handle of a descriptor: its command, when the command's completion
  has an action.\<close>

definition handle :: "uhci \<Rightarrow> addr \<Rightarrow> addr option" where
  "handle s t = (case command (tds s t) of
                   None \<Rightarrow> None
                 | Some cmd \<Rightarrow> (case USLCompletion_action (commands s cmd) of
                                 None \<Rightarrow> None | Some a \<Rightarrow> Some cmd))"

definition missing_handle :: "uhci \<Rightarrow> addr \<Rightarrow> usb_error" where
  "missing_handle s t = (if command (tds s t) = None then NullCommand t else NullCompletionAction t)"

text \<open>The part of the trace that is the dispatcher's: completions, the two reports of
  a missing handle, and deallocations.\<close>

fun is_dispatch :: "event \<Rightarrow> bool" where
  "is_dispatch (Complete cmd st r) = True"
| "is_dispatch (Deallocate t) = True"
| "is_dispatch (USBError (NullCommand t)) = True"
| "is_dispatch (USBError (NullCompletionAction t)) = True"
| "is_dispatch e = False"

definition dispatch_events :: "event list \<Rightarrow> event list" where
  "dispatch_events es = filter is_dispatch es"

text \<open>The loop of the dispatcher on the list of the descriptors of the chain, with the
  descriptors as they are before the call.\<close>

fun doneList :: "uhci_consts \<Rightarrow> uhci \<Rightarrow> IOReturn \<Rightarrow> IOReturn \<Rightarrow> UInt32 \<Rightarrow> addr list \<Rightarrow> event list" where
  "doneList c s fe acc rem [] = []"
| "doneList c s fe acc rem (t # ts) =
     (let st = (if fe \<noteq> kIOReturnSuccess then fe
                else if acc \<noteq> kIOReturnSuccess then acc
                else TDToUSBError c (ctrlStatus (tds s t)));
          acc1 = (if fe \<noteq> kIOReturnSuccess then acc else st);
          r = rem + (UHCI_TD_GET_MAXLEN c (token (tds s t)) - UHCI_TD_GET_ACTLEN c (ctrlStatus (tds s t)))
      in if lastTDofTransaction (tds s t) then
           (case handle s t of
              Some cmd \<Rightarrow> Complete cmd st r # Deallocate t # doneList c s fe kIOReturnSuccess 0 ts
            | None \<Rightarrow> USBError (missing_handle s t) # Deallocate t # doneList c s fe acc1 r ts)
         else Deallocate t # doneList c s fe acc1 r ts)"

text \<open>A transaction: a run of descriptors of which the last one, and no other, is
  flagged last of transaction.\<close>

definition is_txn :: "uhci \<Rightarrow> addr list \<Rightarrow> bool" where
  "is_txn s txn \<longleftrightarrow> txn \<noteq> [] \<and> lastTDofTransaction (tds s (last txn))
                     \<and> (\<forall>t\<in>set (butlast txn). \<not> lastTDofTransaction (tds s t))"

text \<open>In the words of the specification: the status of a transaction is the first
  non-success status among its descriptors (success if there is none), unless an
  error is forced; its residual is the sum over its descriptors of maximum length
  minus actual length.\<close>

definition first_error :: "uhci_consts \<Rightarrow> uhci \<Rightarrow> addr list \<Rightarrow> IOReturn" where
  "first_error c s txn =
     (case filter (\<lambda>e. e \<noteq> kIOReturnSuccess)
                  (map (\<lambda>t. TDToUSBError c (ctrlStatus (tds s t))) txn) of
        [] \<Rightarrow> kIOReturnSuccess
      | e # es \<Rightarrow> e)"

definition txn_status :: "uhci_consts \<Rightarrow> uhci \<Rightarrow> IOReturn \<Rightarrow> addr list \<Rightarrow> IOReturn" where
  "txn_status c s fe txn = (if fe \<noteq> kIOReturnSuccess then fe else first_error c s txn)"

definition txn_residual :: "uhci_consts \<Rightarrow> uhci \<Rightarrow> addr list \<Rightarrow> UInt32" where
  "txn_residual c s txn =
     sum_list (map (\<lambda>t. UHCI_TD_GET_MAXLEN c (token (tds s t))
                         - UHCI_TD_GET_ACTLEN c (ctrlStatus (tds s t))) txn)"

text \<open>What the dispatcher does for one transaction: the descriptors before the last
  one are deallocated; then the completion of the transaction is invoked, or the
  missing handle reported; then the last descriptor is deallocated.\<close>

definition txn_events :: "uhci_consts \<Rightarrow> uhci \<Rightarrow> IOReturn \<Rightarrow> addr list \<Rightarrow> event list" where
  "txn_events c s fe txn =
     map Deallocate (butlast txn) @
     [case handle s (last txn) of
        Some cmd \<Rightarrow> Complete cmd (txn_status c s fe txn) (txn_residual c s txn)
      | None \<Rightarrow> USBError (missing_handle s (last txn)),
      Deallocate (last txn)]"

text \<open>The constants with the values of the UHCI specification (bit 23 of the status
  word is active, bit 22 stalled, bit 20 babble, bit 29 short-packet detect; bit 19
  of the token is the data toggle; the actual and the maximum length are stored
  minus one, in the low eleven bits of the status word and in bits 21 to 31 of the
  token), and a status function that knows two errors.\<close>

definition uhci_hw :: uhci_consts where
  "uhci_hw = \<lparr>kUHCI_NVFRAMES = 4, kUHCI_NINTR_QHS = 3, kUHCI_QH_T = 1, kUHCI_QH_Q = 2,
              kQHTypeDummy = 0x80, kUHCI_CMD_MAXP = 0x80, kUHCI_CMD_CF = 0x40,
              kUHCI_INTR_ALL = 0x0F,
              kUHCI_TD_ACTIVE = 0x800000, kUHCI_TD_STALLED = 0x400000,
              kUHCI_TD_SPD = 0x20000000, kUHCI_TD_BABBLE = 0x100000,
              kUHCI_TD_D = 0x80000,
              UHCI_TD_GET_ACTLEN = (\<lambda>cs. (cs + 1) AND 0x7FF),
              UHCI_TD_GET_MAXLEN = (\<lambda>tk. (drop_bit 21 tk + 1) AND 0x7FF),
              kUSBControl = 0, kUSBBulk = 2, kUSBOut = 0,
              TDToUSBError = (\<lambda>cs. if cs AND 0x400000 \<noteq> 0 then 0xE000404F
                                     else if cs AND 0x100000 \<noteq> 0 then 0xE00002E8
                                     else 0),
              td_GetPhysicalAddrWithType = sharedPhysical\<rparr>"

definition td_blank :: td where
  "td_blank = \<lparr>ctrlStatus = 0, link = 0, token = 0, buffer = 0, logicalNext = None,
               alignBuffer = None, lastFrame = 0, lastRemaining = 0, command = None,
               pQH = None, lastTDofTransaction = False, direction = 0,
               logicalBuffer = None, sharedPhysical = 0\<rparr>"

definition itd_blank :: itd where
  "itd_blank = \<lparr>itd_logicalNext = None, doneQueueLink = None, pEndpoint = None,
                lowLatency = False, itd_alignBuffer = None\<rparr>"

definition ep_blank :: isoch_ep where
  "ep_blank = \<lparr>onProducerQ = 0, onReversedList = 0, nextEP = None, ep_direction = 0\<rparr>"

text \<open>A done chain of two transactions on a bulk endpoint: descriptors 1 and 2 (64 bytes
  each; 1 ended with the stalled bit after 8 bytes, 2 moved nothing) belong to command
  7, descriptor 3 (64 bytes, all moved) to command 8.  Descriptor 9 is the one
  descriptor on the free list.\<close>

definition done_tds :: "addr \<Rightarrow> td" where
  "done_tds = (\<lambda>a. td_blank)
     (1 := td_blank\<lparr>ctrlStatus := 0x400007, token := push_bit 21 63, logicalNext := Some 2,
                    command := Some 7, pQH := Some 50\<rparr>,
      2 := td_blank\<lparr>ctrlStatus := 0x7FF, token := push_bit 21 63 OR 0x80000, logicalNext := Some 3,
                    command := Some 7, pQH := Some 50, lastTDofTransaction := True\<rparr>,
      3 := td_blank\<lparr>ctrlStatus := 63, token := push_bit 21 63, logicalNext := None,
                    command := Some 8, pQH := Some 50, lastTDofTransaction := True\<rparr>)"

definition done_s0 :: uhci where
  "done_s0 = \<lparr>tds = done_tds, pFreeTD = Some 9, pLastFreeTD = Some 9, tdMBHead = [],
              td_newBlocks = [],
              qheads = (\<lambda>a. (qh_blank 0)\<lparr>qh_type := 2\<rparr>),
              commands = (\<lambda>a. \<lparr>USLCompletion_action = Some (a + 100), DMACommand_ok = True\<rparr>),
              events = [], controlBulkTransactionsOut = 5, tailQH = Some 60,
              intrQH_last = None, itds = (\<lambda>a. itd_blank), isochEPs = (\<lambda>a. ep_blank),
              alignDMACommand = (\<lambda>a. None), savedDoneQueueHead = None,
              producerCount = 0, consumerCount = 0, isochEPList = None\<rparr>"

text \<open>The same chain when the completion of command 7 has no action.\<close>

definition done_s1 :: uhci where
  "done_s1 = done_s0\<lparr>commands :=
               (commands done_s0)(7 := \<lparr>USLCompletion_action = None, DMACommand_ok = True\<rparr>)\<rparr>"

section \<open>Properties\<close>

text \<open>
  C10.  Whenever the status register has the host-controller-halted bit set,
  \<^verbatim>\<open>GetFrameNumber\<close> returns 0 and leaves the stored frame-number state (low and
  high counters, and everything else) unchanged.
\<close>

theorem GetFrameNumber_halted:
  "sts_reg s AND kUHCI_STS_HCH c \<noteq> 0 \<Longrightarrow>
     fst (GetFrameNumber c s) = 0 \<and> snd (GetFrameNumber c s) = s
     \<and> lastFrameNumberLow (snd (GetFrameNumber c s)) = lastFrameNumberLow s
     \<and> lastFrameNumberHigh (snd (GetFrameNumber c s)) = lastFrameNumberHigh s"
  by (simp add: GetFrameNumber_def)

theorem GetFrameNumber_halted_witness:
  "sts_reg halted_frame_state AND kUHCI_STS_HCH uhci_frnum_consts \<noteq> 0
   \<and> fst (GetFrameNumber uhci_frnum_consts halted_frame_state) = 0
   \<and> lastFrameNumberLow (snd (GetFrameNumber uhci_frnum_consts halted_frame_state)) = 0x1234
   \<and> lastFrameNumberHigh (snd (GetFrameNumber uhci_frnum_consts halted_frame_state)) = 7"
proof -
  have h: "sts_reg halted_frame_state AND kUHCI_STS_HCH uhci_frnum_consts \<noteq> 0"
    by (simp add: halted_frame_state_def uhci_frnum_consts_def)
  show ?thesis
    using h GetFrameNumber_halted [OF h] by (simp add: halted_frame_state_def)
qed

subsection \<open>The descriptor pool\<close>

lemma td_path_upd: "a \<notin> set xs \<Longrightarrow> td_path (h(a := x)) p xs e = td_path h p xs e"
  by (induction xs arbitrary: p) auto

lemma made_from_step:
  "i < numSlices mb \<Longrightarrow>
     made_from mb i = (case slice mb i of None \<Rightarrow> [] | Some (a, v) \<Rightarrow> a # made_from mb (Suc i))"
  by (auto simp: made_from_def upt_conv_Cons split: option.splits)

lemma made_from_end: "numSlices mb \<le> i \<Longrightarrow> made_from mb i = []"
  by (simp add: made_from_def)

text \<open>The slicing loop pushes the objects it makes onto the free list, and leaves the
  rest of the pool alone.\<close>

lemma sliceTDs_path:
  "sliceTDs mb i f s = (f', s') \<Longrightarrow> td_path (tds s) (pFreeTD s) L None
     \<Longrightarrow> distinct (L @ made_from mb i) \<Longrightarrow>
   td_path (tds s') (pFreeTD s') (rev (made_from mb i) @ L) None
     \<and> f' = (if i < numSlices mb then pFreeTD s' else f)
     \<and> tdMBHead s' = tdMBHead s \<and> td_newBlocks s' = td_newBlocks s
     \<and> pLastFreeTD s' = pLastFreeTD s"
proof (induction mb i f s arbitrary: f' s' L rule: sliceTDs.induct)
  case (1 mb i freeTD s)
  show ?case
  proof (cases "i < numSlices mb")
    case False
    with "1.prems" show ?thesis by (auto simp: sliceTDs.simps made_from_end)
  next
    case True
    show ?thesis
    proof (cases "slice mb i")
      case None
      with True "1.prems" made_from_step[OF True] show ?thesis by (auto simp: sliceTDs.simps)
    next
      case (Some av)
      obtain a v where av: "av = (a, v)" by (cases av)
      let ?s1 = "s\<lparr>tds := (tds s)(a := v\<lparr>logicalNext := pFreeTD s\<rparr>), pFreeTD := Some a\<rparr>"
      from True Some av "1.prems"(1) have r: "sliceTDs mb (Suc i) (Some a) ?s1 = (f', s')"
        by (simp add: sliceTDs.simps)
      have mf: "made_from mb i = a # made_from mb (Suc i)"
        using made_from_step[OF True] Some av by simp
      from "1.prems"(3) mf have an: "a \<notin> set L" and d: "distinct ((a # L) @ made_from mb (Suc i))"
        by auto
      have p1: "td_path (tds ?s1) (pFreeTD ?s1) (a # L) None"
        using "1.prems"(2) an by (simp add: td_path_upd)
      from "1.IH"[OF True Some av[symmetric] r p1 d]
      have ih: "td_path (tds s') (pFreeTD s') (rev (made_from mb (Suc i)) @ a # L) None"
        "f' = (if Suc i < numSlices mb then pFreeTD s' else Some a)"
        "tdMBHead s' = tdMBHead ?s1" "td_newBlocks s' = td_newBlocks ?s1"
        "pLastFreeTD s' = pLastFreeTD ?s1" by simp_all
      have f'1: "f' = pFreeTD s'"
      proof (cases "Suc i < numSlices mb")
        case True
        with ih(2) show ?thesis by simp
      next
        case False
        with r have "s' = ?s1" "f' = Some a" by (auto simp: sliceTDs.simps)
        then show ?thesis by simp
      qed
      from ih f'1 mf True show ?thesis by simp
    qed
  qed
qed

lemma block_usable_made:
  "block_usable mb \<longleftrightarrow> 2 \<le> numSlices mb \<and> made_addrs mb \<noteq> []"
proof (cases "2 \<le> numSlices mb")
  case False
  then show ?thesis by (simp add: block_usable_def)
next
  case True
  then have "1 < numSlices mb" by simp
  from made_from_step[OF this] True show ?thesis
    by (auto simp: block_usable_def made_addrs_def split: option.splits)
qed

text \<open>Linking in and slicing a new block, on an empty free list.\<close>

lemma growTDs_path:
  assumes ok: "td_block_ok mb" and g: "growTDs mb s = (f, s3)"
  shows "td_path (tds s3) (pFreeTD s3) (rev (made_addrs mb)) None
     \<and> f = (if 1 < numSlices mb then pFreeTD s3 else None)
     \<and> tdMBHead s3 = mb # tdMBHead s \<and> td_newBlocks s3 = td_newBlocks s"
proof -
  let ?s1 = "s\<lparr>tdMBHead := mb # tdMBHead s\<rparr>"
  let ?s2 = "(case slice mb 0 of
                None \<Rightarrow> ?s1\<lparr>pLastFreeTD := None, pFreeTD := None\<rparr>
              | Some (a, v) \<Rightarrow>
                  ?s1\<lparr>tds := (tds ?s1)(a := v), pLastFreeTD := Some a, pFreeTD := Some a\<rparr>)"
  let ?L0 = "(case slice mb 0 of None \<Rightarrow> [] | Some (a, v) \<Rightarrow> [a])"
  from g have sl: "sliceTDs mb 1 None ?s2 = (f, s3)" by (simp add: growTDs_def Let_def)
  have p2: "td_path (tds ?s2) (pFreeTD ?s2) ?L0 None"
    using ok by (auto simp: td_block_ok_def split: option.splits)
  have d2: "distinct (?L0 @ made_from mb 1)"
    using ok by (simp add: td_block_ok_def made_addrs_def)
  have f2: "tdMBHead ?s2 = mb # tdMBHead s" "td_newBlocks ?s2 = td_newBlocks s"
    by (simp_all split: option.splits)
  have rl: "rev ?L0 = ?L0" by (simp split: option.splits)
  note sp = sliceTDs_path[OF sl p2 d2]
  have "td_path (tds s3) (pFreeTD s3) (rev (made_addrs mb)) None"
    using sp unfolding made_addrs_def rev_append rl by simp
  moreover have "f = (if 1 < numSlices mb then pFreeTD s3 else None)" using sp by simp
  moreover have "tdMBHead s3 = mb # tdMBHead s" "td_newBlocks s3 = td_newBlocks s"
    using sp f2 by simp_all
  ultimately show ?thesis by simp
qed

lemma popTD_zeroed: "hw_zeroed (tds (popTD f q s) f)"
  by (simp add: popTD_def Let_def hw_zeroed_def SetPhysicalLink_def)

lemma popTD_path:
  assumes "td_path (tds s) (pFreeTD s) (f # F) None" "distinct (f # F)"
  shows "td_path (tds (popTD f q s)) (pFreeTD (popTD f q s)) F None"
    and "tdMBHead (popTD f q s) = tdMBHead s" and "td_newBlocks (popTD f q s) = td_newBlocks s"
  using assms by (auto simp: popTD_def Let_def td_path_upd)

lemma AllocateTD_free:
  "pFreeTD s = Some a \<Longrightarrow>
     fst (AllocateTD q s) = Some a \<and> pFreeTD (snd (AllocateTD q s)) = logicalNext (tds s a)"
  by (simp add: AllocateTD_def popTD_def Let_def)

lemma AllocateTD_fails:
  "pFreeTD s = None \<Longrightarrow> td_newBlocks s = [] \<or> hd (td_newBlocks s) = None
     \<Longrightarrow> AllocateTD q s = (None, s\<lparr>td_newBlocks := tl (td_newBlocks s)\<rparr>)"
  by (cases "td_newBlocks s") (auto simp: AllocateTD_def td_NewMemoryBlock_def)

lemma AllocateTD_grows:
  assumes e: "pFreeTD s = None" and nb: "td_newBlocks s = Some mb # bs" and ok: "td_block_ok mb"
  shows "\<exists>s'. AllocateTD q s = (if block_usable mb then Some (last (made_addrs mb)) else None, s')
           \<and> tdMBHead s' = mb # tdMBHead s \<and> td_newBlocks s' = bs
           \<and> td_path (tds s') (pFreeTD s')
                (if block_usable mb then tl (rev (made_addrs mb)) else rev (made_addrs mb)) None"
proof -
  let ?s0 = "s\<lparr>td_newBlocks := bs\<rparr>"
  have nm: "td_NewMemoryBlock s = (Some mb, ?s0)" using nb by (simp add: td_NewMemoryBlock_def)
  obtain f s3 where g: "growTDs mb ?s0 = (f, s3)" by (cases "growTDs mb ?s0")
  from growTDs_path[OF ok g]
  have p: "td_path (tds s3) (pFreeTD s3) (rev (made_addrs mb)) None"
    and f: "f = (if 1 < numSlices mb then pFreeTD s3 else None)"
    and o: "tdMBHead s3 = mb # tdMBHead s" "td_newBlocks s3 = bs" by simp_all
  have hd: "pFreeTD s3 = (case rev (made_addrs mb) of [] \<Rightarrow> None | a # as \<Rightarrow> Some a)"
    using p by (cases "rev (made_addrs mb)") simp_all
  show ?thesis
  proof (cases "block_usable mb")
    case False
    then have "f = None" using f hd by (auto simp: block_usable_made split: list.splits)
    then have "AllocateTD q s = (None, s3)" using e nm g by (simp add: AllocateTD_def)
    with False p o show ?thesis by simp
  next
    case True
    then have two: "1 < numSlices mb" and ne: "made_addrs mb \<noteq> []"
      by (auto simp: block_usable_made)
    then obtain as where r: "rev (made_addrs mb) = last (made_addrs mb) # as"
      by (cases "made_addrs mb" rule: rev_cases) auto
    let ?a = "last (made_addrs mb)"
    have fa: "f = Some ?a" using f two hd r by simp
    then have al: "AllocateTD q s = (Some ?a, popTD ?a q s3)"
      using e nm g by (simp add: AllocateTD_def)
    have d: "distinct (?a # as)" using ok r by (metis distinct_rev td_block_ok_def)
    have p': "td_path (tds s3) (pFreeTD s3) (?a # as) None" using p r by simp
    have tl: "tl (rev (made_addrs mb)) = as" by (subst r) simp
    note pp = popTD_path[OF p' d, of q]
    show ?thesis
      unfolding al if_P[OF True] tl using pp o by simp
  qed
qed

lemma AllocateTD_zeroed:
  "AllocateTD q s = (Some a, s') \<Longrightarrow> hw_zeroed (tds s' a)"
  by (auto simp: AllocateTD_def popTD_zeroed split: option.splits prod.splits)

lemmas pool_eval = AllocateTD_def td_NewMemoryBlock_def growTDs_def sliceTDs.simps pool0_def pool4_def
  td_block_def popTD_def Let_def SetPhysicalLink_def td_stale_def td_block_short_def pool_short_def

text \<open>
  Claim C8, as the code has it.  For every call of \<^verbatim>\<open>AllocateTD\<close>: with a descriptor
  on the free list, the call returns the head of the list and the list goes on from
  its successor.  With the free list empty a new memory block is asked for.  If there
  is none, the call returns \<^verbatim>\<open>NULL\<close> and the pool is as it was.  If there is one, it
  is linked in and sliced: descriptor objects are made for slice 0 and then for the
  slices 1, 2, ... up to the first one that cannot be made, and they are threaded
  onto the free list, the newest first.  The call then returns a descriptor, the last
  one made, and leaves the others on the free list, exactly when the block has at
  least two slices and the object of slice 0 or of slice 1 could be made; otherwise
  it returns \<^verbatim>\<open>NULL\<close> although a block was allocated.  Every descriptor returned has
  its four hardware-visible words (control/status, link, token, buffer) equal to
  zero.
\<close>

theorem AllocateTD_post:
  "(\<forall>a. pFreeTD s = Some a \<longrightarrow>
        fst (AllocateTD q s) = Some a \<and> pFreeTD (snd (AllocateTD q s)) = logicalNext (tds s a))
   \<and> (pFreeTD s = None \<and> (td_newBlocks s = [] \<or> hd (td_newBlocks s) = None)
        \<longrightarrow> AllocateTD q s = (None, s\<lparr>td_newBlocks := tl (td_newBlocks s)\<rparr>))
   \<and> (\<forall>mb bs. pFreeTD s = None \<and> td_newBlocks s = Some mb # bs \<and> td_block_ok mb \<longrightarrow>
        (\<exists>s'. AllocateTD q s = (if block_usable mb then Some (last (made_addrs mb)) else None, s')
              \<and> tdMBHead s' = mb # tdMBHead s \<and> td_newBlocks s' = bs
              \<and> td_path (tds s') (pFreeTD s')
                   (if block_usable mb then tl (rev (made_addrs mb)) else rev (made_addrs mb)) None))
   \<and> (\<forall>a s'. AllocateTD q s = (Some a, s') \<longrightarrow> hw_zeroed (tds s' a))"
  using AllocateTD_free[of s _ q] AllocateTD_fails[of s q] AllocateTD_grows[of s _ _ q]
    AllocateTD_zeroed[of q s]
  by blast

lemma td_block_made: "made_addrs (td_block b) = [b, b + 1, b + 2, b + 3]"
proof -
  have "[1..<4] = [1, 2, 3]" by (simp add: upt_conv_Cons)
  then show ?thesis by (simp add: made_addrs_def made_from_def td_block_def)
qed

lemma td_block_short_made: "made_addrs td_block_short = []"
proof -
  have "[1..<4] = [1, 2, 3]" by (simp add: upt_conv_Cons)
  then show ?thesis by (simp add: made_addrs_def made_from_def td_block_short_def)
qed

lemma pool4_eval:
  "pFreeTD pool4 = None \<and> td_newBlocks pool4 = [Some (td_block 20)]
   \<and> tdMBHead pool4 = [td_block 10] \<and> \<not> hw_zeroed (tds pool4 23)"
  by (simp add: pool_eval hw_zeroed_def)

text \<open>The witness: after four allocations the first block is used up and the free
  list is empty; the fifth allocation links in and slices the second block,
  returns its last descriptor, zeroed, and leaves the three others on the free list.
  With no block to come the same call returns \<^verbatim>\<open>NULL\<close>; and when the request for a
  block fails once, the call returns \<^verbatim>\<open>NULL\<close> and the next call asks again.\<close>

theorem AllocateTD_post_witness:
  "pFreeTD pool4 = None \<and> td_newBlocks pool4 = [Some (td_block 20)]
   \<and> td_block_ok (td_block 20) \<and> block_usable (td_block 20)
   \<and> (\<exists>s'. AllocateTD None pool4 = (Some 23, s')
         \<and> tdMBHead s' = [td_block 20, td_block 10] \<and> td_newBlocks s' = []
         \<and> td_path (tds s') (pFreeTD s') [22, 21, 20] None
         \<and> hw_zeroed (tds s' 23))
   \<and> \<not> hw_zeroed (tds pool4 23)
   \<and> AllocateTD None (pool4\<lparr>td_newBlocks := []\<rparr>) = (None, pool4\<lparr>td_newBlocks := []\<rparr>)
   \<and> AllocateTD None (pool4\<lparr>td_newBlocks := [None, Some (td_block 20)]\<rparr>) = (None, pool4)"
proof -
  note e = pool4_eval
  have ok: "td_block_ok (td_block 20)"
    by (simp add: td_block_ok_def td_block_made) (simp add: td_block_def td_stale_def)
  have u: "block_usable (td_block 20)" by (simp add: block_usable_def td_block_def)
  have pre: "pFreeTD pool4 = None \<and> td_newBlocks pool4 = Some (td_block 20) # [] \<and> td_block_ok (td_block 20)"
    using e ok by simp
  note c3 = AllocateTD_post[of pool4 None, THEN conjunct2, THEN conjunct2, THEN conjunct1,
      rule_format, of "td_block 20" "[]", OF pre]
  from c3 obtain s' where s': "AllocateTD None pool4 = (Some 23, s')"
    "tdMBHead s' = [td_block 20, td_block 10]" "td_newBlocks s' = []"
    "td_path (tds s') (pFreeTD s') [22, 21, 20] None"
    unfolding if_P[OF u] td_block_made using e by auto
  have z: "hw_zeroed (tds s' 23)"
    using AllocateTD_post[of pool4 None, THEN conjunct2, THEN conjunct2, THEN conjunct2,
      rule_format, OF s'(1)] .
  have f: "AllocateTD None (pool4\<lparr>td_newBlocks := []\<rparr>) = (None, pool4\<lparr>td_newBlocks := []\<rparr>)"
    using AllocateTD_post[of "pool4\<lparr>td_newBlocks := []\<rparr>" None, THEN conjunct2, THEN conjunct1] e
    by simp
  from s' z have x: "\<exists>s'. AllocateTD None pool4 = (Some 23, s')
         \<and> tdMBHead s' = [td_block 20, td_block 10] \<and> td_newBlocks s' = []
         \<and> td_path (tds s') (pFreeTD s') [22, 21, 20] None
         \<and> hw_zeroed (tds s' 23)"
    by blast
  have p4: "pool4\<lparr>td_newBlocks := [Some (td_block 20)]\<rparr> = pool4" using e by simp
  have g: "AllocateTD None (pool4\<lparr>td_newBlocks := [None, Some (td_block 20)]\<rparr>) = (None, pool4)"
    using AllocateTD_post[of "pool4\<lparr>td_newBlocks := [None, Some (td_block 20)]\<rparr>" None,
        THEN conjunct2, THEN conjunct1] e p4
    by simp
  from x e ok u f g show ?thesis by blast
qed

text \<open>
  Against C8 as stated (with the free list empty a new block is allocated, so the
  call still succeeds): the pool below gets a block of four slices, but the
  descriptor objects of its slices 0 and 1 cannot be made; the block is linked in,
  and the call returns \<^verbatim>\<open>NULL\<close> without trying slices 2 and 3.
\<close>

theorem AllocateTD_block_counterexample:
  "pFreeTD pool_short = None \<and> td_newBlocks pool_short = [Some td_block_short]
   \<and> slice td_block_short 2 \<noteq> None
   \<and> fst (AllocateTD None pool_short) = None
   \<and> tdMBHead (snd (AllocateTD None pool_short)) = [td_block_short]
   \<and> pFreeTD (snd (AllocateTD None pool_short)) = None"
  by (simp add: pool_eval)

subsection \<open>The frame loop and the queue-head pool\<close>

lemma stride_hit:
  fixes m :: nat assumes "0 < m"
  shows "(m - 1 \<le> k \<and> (k - (m - 1)) mod m = 0) \<longleftrightarrow> k mod m = m - 1"
proof
  assume a: "m - 1 \<le> k \<and> (k - (m - 1)) mod m = 0"
  then obtain q where q: "k - (m - 1) = m * q" by (auto simp: mod_eq_0_iff_dvd)
  with a have "k = m * q + (m - 1)" by linarith
  then have "k mod m = (m - 1) mod m" by (metis mod_mult_self4)
  with assms show "k mod m = m - 1" by simp
next
  assume a: "k mod m = m - 1"
  have k: "k = m * (k div m) + (m - 1)" using a by (metis mult_div_mod_eq)
  then have "m - 1 \<le> k" by linarith
  moreover from k have "k - (m - 1) = m * (k div m)" by linarith
  ultimately show "m - 1 \<le> k \<and> (k - (m - 1)) mod m = 0" by simp
qed

lemma stride_step:
  fixes m :: nat assumes "0 < m" "k \<noteq> j"
  shows "(j + m \<le> k \<and> (k - (j + m)) mod m = 0) \<longleftrightarrow> (j \<le> k \<and> (k - j) mod m = 0)"
proof
  assume a: "j + m \<le> k \<and> (k - (j + m)) mod m = 0"
  then have "m dvd (k - (j + m))" by (simp add: mod_eq_0_iff_dvd)
  then have "m dvd (k - (j + m)) + m" by simp
  moreover from a have "(k - (j + m)) + m = k - j" by linarith
  ultimately show "j \<le> k \<and> (k - j) mod m = 0" using a by (simp add: mod_eq_0_iff_dvd)
next
  assume a: "j \<le> k \<and> (k - j) mod m = 0"
  then have d: "m dvd (k - j)" by (simp add: mod_eq_0_iff_dvd)
  from a assms have "0 < k - j" by linarith
  with d have le: "m \<le> k - j" by (simp add: dvd_imp_le)
  have "m dvd (k - j) - m" by (rule dvd_diff_nat[OF d dvd_refl])
  then have "m dvd k - (j + m)" by (simp add: diff_diff_left)
  moreover from le a have "j + m \<le> k" by linarith
  ultimately show "j + m \<le> k \<and> (k - (j + m)) mod m = 0"
    by (simp add: mod_eq_0_iff_dvd)
qed

lemma frameLoop_fields [simp]:
  "qhs (frameLoop c pQ i j s) = qhs s"
  "intrQH (frameLoop c pQ i j s) = intrQH s"
  "pFreeQH (frameLoop c pQ i j s) = pFreeQH s"
  "pLastFreeQH (frameLoop c pQ i j s) = pLastFreeQH s"
  "qh_newBlocks (frameLoop c pQ i j s) = qh_newBlocks s"
  "io (frameLoop c pQ i j s) = io s"
  "lastQH (frameLoop c pQ i j s) = lastQH s"
  "framesPaddr (frameLoop c pQ i j s) = framesPaddr s"
  by (induction c pQ i j s rule: frameLoop.induct; subst frameLoop.simps; simp)+

lemma frameLoop_logical:
  "logicalFrameList (frameLoop c pQ i j s) k =
     (if j \<le> k \<and> k < kUHCI_NVFRAMES c \<and> (k - j) mod 2 ^ i = 0 then Some pQ
      else logicalFrameList s k)"
proof (induction c pQ i j s rule: frameLoop.induct)
  case (1 c pQ i j s)
  show ?case
  proof (cases "j < kUHCI_NVFRAMES c")
    case False
    then show ?thesis by (subst frameLoop.simps) auto
  next
    case True
    have "logicalFrameList (frameLoop c pQ i j s) k = 
      logicalFrameList (frameLoop c pQ i (j + 2 ^ i)
          (s\<lparr>frameList := (frameList s)(j := GetPhysicalAddrWithType c (qhs s pQ)),
             logicalFrameList := (logicalFrameList s)(j := Some pQ)\<rparr>)) k"
      using True by (subst frameLoop.simps) simp
    also have "\<dots> = (if j \<le> k \<and> k < kUHCI_NVFRAMES c \<and> (k - j) mod 2 ^ i = 0 then Some pQ
      else logicalFrameList s k)"
    proof (cases "k = j")
      case True
      with \<open>j < kUHCI_NVFRAMES c\<close> show ?thesis unfolding "1.IH"[OF \<open>j < kUHCI_NVFRAMES c\<close>] by simp
    next
      case False
      from stride_step[of "2 ^ i" k j] False
      show ?thesis unfolding "1.IH"[OF \<open>j < kUHCI_NVFRAMES c\<close>] by auto
    qed
    finally show ?thesis .
  qed
qed

lemma frameLoop_frameList:
  "frameList (frameLoop c pQ i j s) k =
     (if j \<le> k \<and> k < kUHCI_NVFRAMES c \<and> (k - j) mod 2 ^ i = 0
      then GetPhysicalAddrWithType c (qhs s pQ)
      else frameList s k)"
proof (induction c pQ i j s rule: frameLoop.induct)
  case (1 c pQ i j s)
  show ?case
  proof (cases "j < kUHCI_NVFRAMES c")
    case False
    then show ?thesis by (subst frameLoop.simps) auto
  next
    case True
    have "frameList (frameLoop c pQ i j s) k = 
      frameList (frameLoop c pQ i (j + 2 ^ i)
          (s\<lparr>frameList := (frameList s)(j := GetPhysicalAddrWithType c (qhs s pQ)),
             logicalFrameList := (logicalFrameList s)(j := Some pQ)\<rparr>)) k"
      using True by (subst frameLoop.simps) simp
    also have "\<dots> = (if j \<le> k \<and> k < kUHCI_NVFRAMES c \<and> (k - j) mod 2 ^ i = 0
      then GetPhysicalAddrWithType c (qhs s pQ) else frameList s k)"
    proof (cases "k = j")
      case True
      with \<open>j < kUHCI_NVFRAMES c\<close> show ?thesis unfolding "1.IH"[OF \<open>j < kUHCI_NVFRAMES c\<close>] by simp
    next
      case False
      from stride_step[of "2 ^ i" k j] False
      show ?thesis unfolding "1.IH"[OF \<open>j < kUHCI_NVFRAMES c\<close>] by auto
    qed
    finally show ?thesis .
  qed
qed

lemma frameLoop_level:
  "logicalFrameList (frameLoop c pQ i (2 ^ i - 1) s) k =
     (if k < kUHCI_NVFRAMES c \<and> k mod 2 ^ i = 2 ^ i - 1 then Some pQ
      else logicalFrameList s k)"
  using stride_hit[of "2 ^ i" k] by (auto simp: frameLoop_logical)

lemma frameLoop_level_frameList:
  "frameList (frameLoop c pQ i (2 ^ i - 1) s) k =
     (if k < kUHCI_NVFRAMES c \<and> k mod 2 ^ i = 2 ^ i - 1 then GetPhysicalAddrWithType c (qhs s pQ)
      else frameList s k)"
  using stride_hit[of "2 ^ i" k] by (auto simp: frameLoop_frameList)

lemma qh_path_upd: "a \<notin> set as \<Longrightarrow> qh_path (h(a := x)) p as = qh_path h p as"
  by (induction as arbitrary: p) auto

lemma slice_addrs_step:
  "i < numSlices mb \<Longrightarrow>
     slice_addrs mb i = (case slice mb i of None \<Rightarrow> slice_addrs mb (Suc i)
                         | Some (a, v) \<Rightarrow> a # slice_addrs mb (Suc i))"
  by (simp add: slice_addrs_def upt_conv_Cons map_filter_simps split: option.splits)

lemma slice_addrs_end: "numSlices mb \<le> i \<Longrightarrow> slice_addrs mb i = []"
  by (simp add: slice_addrs_def map_filter_simps)

lemma sliceQHs_other [simp]:
  "intrQH (snd (sliceQHs mb i f s)) = intrQH s"
  "qh_newBlocks (snd (sliceQHs mb i f s)) = qh_newBlocks s"
  "frameList (snd (sliceQHs mb i f s)) = frameList s"
  "logicalFrameList (snd (sliceQHs mb i f s)) = logicalFrameList s"
  "io (snd (sliceQHs mb i f s)) = io s"
  "lastQH (snd (sliceQHs mb i f s)) = lastQH s"
  "framesPaddr (snd (sliceQHs mb i f s)) = framesPaddr s"
  by (induction mb i f s rule: sliceQHs.induct; subst sliceQHs.simps;
      simp split: option.splits prod.splits)+

lemma sliceQHs_wf:
  "sliceQHs mb i f s = (f', s') \<Longrightarrow> qh_path (qhs s) (pFreeQH s) L
     \<Longrightarrow> distinct (L @ slice_addrs mb i) \<Longrightarrow>
   \<exists>L'. qh_path (qhs s') (pFreeQH s') L' \<and> distinct L'
        \<and> set L' \<subseteq> set L \<union> set (slice_addrs mb i)
        \<and> (\<forall>a. a \<notin> set (slice_addrs mb i) \<longrightarrow> qhs s' a = qhs s a)
        \<and> (i < numSlices mb \<longrightarrow> f' = pFreeQH s')
        \<and> (numSlices mb \<le> i \<longrightarrow> f' = f)"
proof (induction mb i f s arbitrary: f' s' L rule: sliceQHs.induct)
  case (1 mb i freeQH s)
  show ?case
  proof (cases "i < numSlices mb")
    case False
    with "1.prems" show ?thesis by (auto simp: sliceQHs.simps)
  next
    case True
    show ?thesis
    proof (cases "slice mb i")
      case None
      with True "1.prems" show ?thesis by (auto simp: sliceQHs.simps)
    next
      case (Some av)
      obtain a v where av: "av = (a, v)" by (cases av)
      let ?s1 = "s\<lparr>qhs := (qhs s)(a := v\<lparr>qh_logicalNext := pFreeQH s\<rparr>), pFreeQH := Some a\<rparr>"
      from True Some av "1.prems"(1) have r: "sliceQHs mb (Suc i) (Some a) ?s1 = (f', s')"
        by (simp add: sliceQHs.simps)
      have sa: "slice_addrs mb i = a # slice_addrs mb (Suc i)"
        using slice_addrs_step[OF True] Some av by simp
      from "1.prems"(3) sa have an: "a \<notin> set L" and d: "distinct ((a # L) @ slice_addrs mb (Suc i))"
        by auto
      have p1: "qh_path (qhs ?s1) (pFreeQH ?s1) (a # L)"
        using "1.prems"(2) an by (simp add: qh_path_upd)
      from "1.IH"[OF True Some av[symmetric] r p1 d]
      obtain L' where L': "qh_path (qhs s') (pFreeQH s') L'" "distinct L'"
        "set L' \<subseteq> set (a # L) \<union> set (slice_addrs mb (Suc i))"
        "\<forall>b. b \<notin> set (slice_addrs mb (Suc i)) \<longrightarrow> qhs s' b = qhs ?s1 b"
        "Suc i < numSlices mb \<longrightarrow> f' = pFreeQH s'"
        "numSlices mb \<le> Suc i \<longrightarrow> f' = Some a" by blast
      have fr: "\<forall>b. b \<notin> set (slice_addrs mb i) \<longrightarrow> qhs s' b = qhs s b"
        using L'(4) sa by auto
      have f'1: "f' = pFreeQH s'"
      proof (cases "Suc i < numSlices mb")
        case True
        with L'(5) show ?thesis by simp
      next
        case False
        with r have "s' = ?s1" "f' = Some a" by (auto simp: sliceQHs.simps)
        then show ?thesis by simp
      qed
      from L'(1,2,3) fr f'1 sa True show ?thesis by auto
    qed
  qed
qed

lemma popQH_fields [simp]:
  "pFreeQH (popQH f fn ep dir spd mps ty s) = qh_logicalNext (qhs s f)"
  "qh_newBlocks (popQH f fn ep dir spd mps ty s) = qh_newBlocks s"
  "intrQH (popQH f fn ep dir spd mps ty s) = intrQH s"
  "frameList (popQH f fn ep dir spd mps ty s) = frameList s"
  "logicalFrameList (popQH f fn ep dir spd mps ty s) = logicalFrameList s"
  "io (popQH f fn ep dir spd mps ty s) = io s"
  "lastQH (popQH f fn ep dir spd mps ty s) = lastQH s"
  "framesPaddr (popQH f fn ep dir spd mps ty s) = framesPaddr s"
  by (simp_all add: popQH_def Let_def)

lemma popQH_qhs:
  "qhs (popQH f fn ep dir spd mps ty s) =
     (qhs s)(f := (qhs s f)\<lparr>qh_logicalNext := None, functionNumber := fn, endpointNumber := ep,
                          qh_direction := dir, speed := spd, maxPacketSize := mps,
                          qh_type := ty, stalled := False\<rparr>)"
  by (simp add: popQH_def Let_def)

lemma popQH_ok:
  assumes "qh_path (qhs s) (pFreeQH s) (f # F1)" "distinct (f # F1)"
  shows "qh_path (qhs (popQH f fn ep dir spd mps ty s)) (pFreeQH (popQH f fn ep dir spd mps ty s)) F1"
  using assms by (simp add: popQH_qhs qh_path_upd)

lemma pending_Cons_Some:
  "pending_addrs (Some mb # bs) = slice_addrs mb 0 @ pending_addrs bs"
  by (simp add: pending_addrs_def)

lemma AllocateQH_ok:
  assumes wf: "qh_pool_ok s F" and al: "AllocateQH fn ep dir spd mps ty s = (r, s')"
  shows "\<exists>F'. qh_pool_ok s' F' \<and> pool_addrs s' F' \<subseteq> pool_addrs s F
          \<and> (\<forall>q. r = Some q \<longrightarrow> q \<in> pool_addrs s F \<and> q \<notin> pool_addrs s' F')
          \<and> (\<forall>a. a \<notin> pool_addrs s F \<longrightarrow> qhs s' a = qhs s a)"
proof (cases "pFreeQH s")
  case (Some f)
  with wf obtain F1 where F: "F = f # F1" by (cases F) (auto simp: qh_pool_ok_def)
  from Some al have r: "r = Some f" "s' = popQH f fn ep dir spd mps ty s"
    by (auto simp: AllocateQH_def)
  from wf F have d: "distinct (f # F1)" and p: "qh_path (qhs s) (pFreeQH s) (f # F1)"
    by (auto simp: qh_pool_ok_def)
  have "qh_pool_ok s' F1"
    using popQH_ok[OF p d] wf F r by (auto simp: qh_pool_ok_def)
  moreover have "pool_addrs s' F1 \<subseteq> pool_addrs s F" using r F by (auto simp: pool_addrs_def)
  moreover have "f \<in> pool_addrs s F" "f \<notin> pool_addrs s' F1"
    using wf F r by (auto simp: pool_addrs_def qh_pool_ok_def)
  moreover have "\<forall>a. a \<notin> pool_addrs s F \<longrightarrow> qhs s' a = qhs s a"
    using r F by (auto simp: pool_addrs_def popQH_qhs)
  ultimately show ?thesis using r by blast
next
  case None
  with wf have F: "F = []" by (cases F) (auto simp: qh_pool_ok_def)
  obtain b s0 where nm: "qh_NewMemoryBlock s = (b, s0)" by (cases "qh_NewMemoryBlock s")
  show ?thesis
  proof (cases b)
    case None
    with nm \<open>pFreeQH s = None\<close> al have r: "r = None" "s' = s0" by (auto simp: AllocateQH_def)
    have s0: "qhs s0 = qhs s" "pFreeQH s0 = pFreeQH s"
      "pending_addrs (qh_newBlocks s0) = pending_addrs (qh_newBlocks s)"
      "set (qh_newBlocks s0) \<subseteq> set (qh_newBlocks s)"
      using nm None by (auto simp: qh_NewMemoryBlock_def pending_addrs_def split: list.splits)
    then have "qh_pool_ok s0 F" using wf by (auto simp: qh_pool_ok_def)
    moreover have "pool_addrs s0 F = pool_addrs s F" using s0 by (simp add: pool_addrs_def)
    ultimately show ?thesis using r s0 by auto
  next
    case (Some mb)
    with nm obtain bs where nb: "qh_newBlocks s = Some mb # bs"
      and nm': "qh_NewMemoryBlock s = (Some mb, s\<lparr>qh_newBlocks := bs\<rparr>)"
      by (auto simp: qh_NewMemoryBlock_def split: list.splits)
    from wf nb have bo: "block_ok mb" by (auto simp: qh_pool_ok_def)
    let ?s1 = "s\<lparr>qh_newBlocks := bs, qhMBHead := mb # qhMBHead s\<rparr>"
    let ?s2 = "(case slice mb 0 of
                       None \<Rightarrow> ?s1\<lparr>pLastFreeQH := None, pFreeQH := None\<rparr>
                     | Some (a, v) \<Rightarrow>
                         ?s1\<lparr>qhs := (qhs ?s1)(a := v), pLastFreeQH := Some a, pFreeQH := Some a\<rparr>)"
    let ?L0 = "(case slice mb 0 of None \<Rightarrow> [] | Some (a, v) \<Rightarrow> [a])"
    obtain f' s3 where sl: "sliceQHs mb 1 None ?s2 = (f', s3)"
      by (cases "sliceQHs mb 1 None ?s2")
    have g: "growQHs mb (s\<lparr>qh_newBlocks := bs\<rparr>) = (f', s3)"
      using sl by (simp add: growQHs_def Let_def)
    have sa0: "slice_addrs mb 0 = ?L0 @ slice_addrs mb 1"
      using slice_addrs_step[of 0 mb] bo by (auto simp: block_ok_def split: option.splits)
    from wf nb F have dall: "distinct (slice_addrs mb 0 @ pending_addrs bs)"
      by (simp add: qh_pool_ok_def pending_Cons_Some)
    have p2: "qh_path (qhs ?s2) (pFreeQH ?s2) ?L0"
      using bo by (auto simp: block_ok_def split: option.splits)
    have d2: "distinct (?L0 @ slice_addrs mb 1)"
    proof -
      from dall have "distinct (slice_addrs mb 0)" by simp
      then show ?thesis unfolding sa0 .
    qed
    from sliceQHs_wf[OF sl p2 d2]
    obtain L' where L': "qh_path (qhs s3) (pFreeQH s3) L'" "distinct L'"
        "set L' \<subseteq> set ?L0 \<union> set (slice_addrs mb 1)"
        "\<forall>a. a \<notin> set (slice_addrs mb 1) \<longrightarrow> qhs s3 a = qhs ?s2 a"
        "1 < numSlices mb \<longrightarrow> f' = pFreeQH s3"
        "numSlices mb \<le> 1 \<longrightarrow> f' = None" by blast
    have nb3: "qh_newBlocks s3 = bs"
    proof -
      have "qh_newBlocks s3 = qh_newBlocks (snd (sliceQHs mb 1 None ?s2))"
        by (simp only: sl snd_conv)
      also have "\<dots> = qh_newBlocks ?s2" by (rule sliceQHs_other(2))
      also have "\<dots> = bs" by (simp split: option.splits)
      finally show ?thesis .
    qed
    have sub: "set L' \<subseteq> set (slice_addrs mb 0)" using L'(3) sa0 by auto
    have fr3: "\<forall>a. a \<notin> set (slice_addrs mb 0) \<longrightarrow> qhs s3 a = qhs s a"
    proof (intro allI impI)
      fix a assume a: "a \<notin> set (slice_addrs mb 0)"
      with sa0 have "a \<notin> set (slice_addrs mb 1)" "a \<notin> set ?L0" by auto
      with L'(4) have "qhs s3 a = qhs ?s2 a" by simp
      also have "\<dots> = qhs s a" using \<open>a \<notin> set ?L0\<close> by (auto split: option.splits)
      finally show "qhs s3 a = qhs s a" .
    qed
    have ok3: "qh_pool_ok s3 L'"
      using L'(1,2) sub dall wf nb nb3 by (auto simp: qh_pool_ok_def)
    show ?thesis
    proof (cases f')
      case None
      with g nm' \<open>pFreeQH s = None\<close> al have r: "r = None" "s' = s3" by (auto simp: AllocateQH_def)
      have "pool_addrs s3 L' \<subseteq> pool_addrs s F"
        using sub nb nb3 by (auto simp: pool_addrs_def pending_Cons_Some)
      moreover have "\<forall>a. a \<notin> pool_addrs s F \<longrightarrow> qhs s3 a = qhs s a"
        using fr3 nb by (auto simp: pool_addrs_def pending_Cons_Some)
      ultimately show ?thesis using ok3 r by blast
    next
      case (Some f)
      with g nm' \<open>pFreeQH s = None\<close> al have r: "r = Some f" "s' = popQH f fn ep dir spd mps ty s3"
        by (auto simp: AllocateQH_def)
      from Some L'(5,6) have pf: "pFreeQH s3 = Some f" by (cases "1 < numSlices mb") auto
      with L'(1) obtain L1 where L1: "L' = f # L1" by (cases L') auto
      have ok': "qh_pool_ok s' L1"
        using popQH_ok[of s3 f L1] L'(1,2) L1 ok3 r by (auto simp: qh_pool_ok_def)
      have "pool_addrs s' L1 \<subseteq> pool_addrs s F"
        using sub nb nb3 r L1 by (auto simp: pool_addrs_def pending_Cons_Some)
      moreover have "f \<in> pool_addrs s F"
        using sub nb L1 by (auto simp: pool_addrs_def pending_Cons_Some)
      moreover have "f \<notin> pool_addrs s' L1"
        using ok3 L1 r nb3 by (auto simp: pool_addrs_def qh_pool_ok_def)
      moreover have "\<forall>a. a \<notin> pool_addrs s F \<longrightarrow> qhs s' a = qhs s a"
      proof (intro allI impI)
        fix a assume a: "a \<notin> pool_addrs s F"
        then have "a \<notin> set (slice_addrs mb 0)" using nb by (auto simp: pool_addrs_def pending_Cons_Some)
        with fr3 sub L1 r show "qhs s' a = qhs s a" by (auto simp: popQH_qhs)
      qed
      ultimately show ?thesis using ok' r by blast
    qed
  qed
qed

lemma qh_path_unique: "qh_path h p F \<Longrightarrow> qh_path h p G \<Longrightarrow> F = G"
proof (induction F arbitrary: p G)
  case Nil
  then show ?case by (cases G) auto
next
  case (Cons a F)
  then show ?case by (cases G) auto
qed

lemma pool_set_eq: "qh_pool_ok s F \<Longrightarrow> pool_set s = pool_addrs s F"
proof -
  assume "qh_pool_ok s F"
  then have p: "qh_path (qhs s) (pFreeQH s) F" by (simp add: qh_pool_ok_def)
  have "{a. \<exists>G. qh_path (qhs s) (pFreeQH s) G \<and> a \<in> set G} = set F"
  proof (rule set_eqI)
    fix a
    show "a \<in> {a. \<exists>G. qh_path (qhs s) (pFreeQH s) G \<and> a \<in> set G} \<longleftrightarrow> a \<in> set F"
      using p qh_path_unique[OF p] by blast
  qed
  then show ?thesis by (simp add: pool_set_def pool_addrs_def)
qed

lemma AllocateQH_wf:
  assumes "pool_wf s" "AllocateQH fn ep dir spd mps ty s = (r, s')"
  shows "pool_wf s' \<and> pool_set s' \<subseteq> pool_set s
          \<and> (\<forall>q. r = Some q \<longrightarrow> q \<in> pool_set s \<and> q \<notin> pool_set s')
          \<and> (\<forall>a. a \<notin> pool_set s \<longrightarrow> qhs s' a = qhs s a)"
proof -
  from assms(1) obtain F where F: "qh_pool_ok s F" by (auto simp: pool_wf_def)
  from AllocateQH_ok[OF F assms(2)] obtain F' where F': "qh_pool_ok s' F'"
    "pool_addrs s' F' \<subseteq> pool_addrs s F"
    "\<forall>q. r = Some q \<longrightarrow> q \<in> pool_addrs s F \<and> q \<notin> pool_addrs s' F'"
    "\<forall>a. a \<notin> pool_addrs s F \<longrightarrow> qhs s' a = qhs s a" by blast
  show ?thesis
    using F' pool_set_eq[OF F] pool_set_eq[OF F'(1)] by (auto simp: pool_wf_def)
qed

lemma growQHs_other:
  "growQHs mb s = (f, s') \<Longrightarrow>
     intrQH s' = intrQH s \<and> frameList s' = frameList s
     \<and> logicalFrameList s' = logicalFrameList s \<and> io s' = io s \<and> lastQH s' = lastQH s
     \<and> framesPaddr s' = framesPaddr s"
proof -
  assume g: "growQHs mb s = (f, s')"
  let ?s1 = "s\<lparr>qhMBHead := mb # qhMBHead s\<rparr>"
  let ?s2 = "(case slice mb 0 of
                       None \<Rightarrow> ?s1\<lparr>pLastFreeQH := None, pFreeQH := None\<rparr>
                     | Some (a, v) \<Rightarrow>
                         ?s1\<lparr>qhs := (qhs ?s1)(a := v), pLastFreeQH := Some a, pFreeQH := Some a\<rparr>)"
  from g have "s' = snd (sliceQHs mb 1 None ?s2)" by (simp add: growQHs_def Let_def)
  then show ?thesis by (simp split: option.splits)
qed

lemma qh_NewMemoryBlock_other:
  "qh_NewMemoryBlock s = (b, s') \<Longrightarrow>
     intrQH s' = intrQH s \<and> frameList s' = frameList s
     \<and> logicalFrameList s' = logicalFrameList s \<and> io s' = io s \<and> lastQH s' = lastQH s
     \<and> framesPaddr s' = framesPaddr s \<and> anchors s' = anchors s"
  by (auto simp: qh_NewMemoryBlock_def anchors_def split: list.splits)

lemma AllocateQH_other:
  "AllocateQH fn ep dir spd mps ty s = (r, s') \<Longrightarrow>
     intrQH s' = intrQH s \<and> frameList s' = frameList s
     \<and> logicalFrameList s' = logicalFrameList s \<and> io s' = io s \<and> lastQH s' = lastQH s
     \<and> framesPaddr s' = framesPaddr s"
proof (cases "pFreeQH s")
  case (Some a)
  assume "AllocateQH fn ep dir spd mps ty s = (r, s')"
  with Some have "s' = popQH a fn ep dir spd mps ty s" by (simp add: AllocateQH_def)
  then show ?thesis by simp
next
  case None
  assume al: "AllocateQH fn ep dir spd mps ty s = (r, s')"
  obtain b s0 where nm: "qh_NewMemoryBlock s = (b, s0)" by (cases "qh_NewMemoryBlock s")
  note o0 = qh_NewMemoryBlock_other[OF nm]
  show ?thesis
  proof (cases b)
    case None
    with \<open>pFreeQH s = None\<close> al nm have "s' = s0" by (simp add: AllocateQH_def)
    with o0 show ?thesis by simp
  next
    case (Some mb)
    obtain f s3 where g: "growQHs mb s0 = (f, s3)" by (cases "growQHs mb s0")
    note o = growQHs_other[OF g]
    from \<open>pFreeQH s = None\<close> al nm Some g
    have "s' = s3 \<or> (\<exists>a. s' = popQH a fn ep dir spd mps ty s3)"
      by (cases f) (auto simp: AllocateQH_def)
    with o o0 show ?thesis by auto
  qed
qed

lemma AllocateQH_new:
  "AllocateQH fn ep dir spd mps ty s = (Some q, s') \<Longrightarrow>
     qh_logicalNext (qhs s' q) = None \<and> qh_type (qhs s' q) = ty \<and> \<not> stalled (qhs s' q)"
proof -
  assume al: "AllocateQH fn ep dir spd mps ty s = (Some q, s')"
  then have "\<exists>s3. s' = popQH q fn ep dir spd mps ty s3"
    by (auto simp: AllocateQH_def split: option.splits prod.splits)
  then show ?thesis by (auto simp: popQH_qhs)
qed

lemma setupQH_fields [simp]:
  "pFreeQH (setupQH c q nxt s) = pFreeQH s"
  "qh_newBlocks (setupQH c q nxt s) = qh_newBlocks s"
  "intrQH (setupQH c q nxt s) = intrQH s"
  "frameList (setupQH c q nxt s) = frameList s"
  "logicalFrameList (setupQH c q nxt s) = logicalFrameList s"
  "io (setupQH c q nxt s) = io s"
  "lastQH (setupQH c q nxt s) = lastQH s"
  "framesPaddr (setupQH c q nxt s) = framesPaddr s"
  by (simp_all add: setupQH_def Let_def)

lemma setupQH_qhs:
  "qhs (setupQH c q nxt s) a =
     (if a = q then (qhs s q)\<lparr>qh_logicalNext := nxt,
                              hlink := (case nxt of None \<Rightarrow> kUHCI_QH_T c
                                        | Some n \<Rightarrow> GetPhysicalAddrWithType c (qhs s n)),
                              firstTD := None, elink := kUHCI_QH_T c\<rparr>
      else qhs s a)"
  by (simp add: setupQH_def Let_def qh_SetPhysicalLink_def)

lemma qh_pool_ok_upd:
  "qh_pool_ok s F \<Longrightarrow> q \<notin> set F \<Longrightarrow> pFreeQH s' = pFreeQH s \<Longrightarrow> qh_newBlocks s' = qh_newBlocks s
     \<Longrightarrow> (\<forall>a. a \<noteq> q \<longrightarrow> qhs s' a = qhs s a) \<Longrightarrow> qh_pool_ok s' F"
proof -
  assume a: "qh_pool_ok s F" "q \<notin> set F" "pFreeQH s' = pFreeQH s" "qh_newBlocks s' = qh_newBlocks s"
    "\<forall>a. a \<noteq> q \<longrightarrow> qhs s' a = qhs s a"
  have "qhs s' = (qhs s)(q := qhs s' q)" using a(5) by auto
  then have "qh_path (qhs s') (pFreeQH s) F = qh_path (qhs s) (pFreeQH s) F"
    using qh_path_upd[OF a(2), of "qhs s" "qhs s' q" "pFreeQH s"] by simp
  with a show ?thesis by (simp add: qh_pool_ok_def)
qed

lemma pool_wf_upd:
  assumes "pool_wf s" "q \<notin> pool_set s" "pFreeQH s' = pFreeQH s" "qh_newBlocks s' = qh_newBlocks s"
     "\<forall>a. a \<noteq> q \<longrightarrow> qhs s' a = qhs s a"
  shows "pool_wf s' \<and> pool_set s' = pool_set s"
proof -
  from assms(1) obtain F where F: "qh_pool_ok s F" by (auto simp: pool_wf_def)
  with assms(2) have "q \<notin> set F" by (simp add: pool_set_eq pool_addrs_def)
  from qh_pool_ok_upd[OF F this assms(3,4,5)] have F': "qh_pool_ok s' F" .
  then show ?thesis using pool_set_eq[OF F] pool_set_eq[OF F'] assms(4)
    by (auto simp: pool_wf_def pool_addrs_def)
qed

lemma setupQH_wf:
  "pool_wf s \<Longrightarrow> q \<notin> pool_set s \<Longrightarrow>
     pool_wf (setupQH c q nxt s) \<and> pool_set (setupQH c q nxt s) = pool_set s"
  by (rule pool_wf_upd[where q = q]) (simp_all add: setupQH_qhs)

lemma frameLoop_wf:
  "pool_wf s \<Longrightarrow> pool_wf (frameLoop c pQ i j s) \<and> pool_set (frameLoop c pQ i j s) = pool_set s"
  by (simp add: pool_wf_def pool_set_def qh_pool_ok_def)

lemma intrLoop_unfold:
  "intrLoop c i lastQ s =
     (if i < kUHCI_NINTR_QHS c then
        (case AllocateQH 0 0 0 0 0 (kQHTypeDummy c) s of
           (None, s1) \<Rightarrow> (False, s1)
         | (Some pQ, s1) \<Rightarrow> intrLoop c (Suc i) pQ (intrStep c i lastQ pQ s1))
      else (True, s))"
  by (subst intrLoop.simps) (simp add: intrStep_def Let_def split: prod.splits option.splits)

lemma intrStep_fields [simp]:
  "intrQH (intrStep c i lastQ pQ s1) = (intrQH s1)(i := Some pQ)"
  "io (intrStep c i lastQ pQ s1) = io s1"
  "lastQH (intrStep c i lastQ pQ s1) = lastQH s1"
  "framesPaddr (intrStep c i lastQ pQ s1) = framesPaddr s1"
  "pFreeQH (intrStep c i lastQ pQ s1) = pFreeQH s1"
  "qh_newBlocks (intrStep c i lastQ pQ s1) = qh_newBlocks s1"
  by (simp_all add: intrStep_def)

lemma intrStep_qhs:
  "qhs (intrStep c i lastQ pQ s1) a =
     (if a = pQ then (qhs s1 pQ)\<lparr>qh_logicalNext := Some lastQ,
                              hlink := GetPhysicalAddrWithType c (qhs s1 lastQ),
                              firstTD := None, elink := kUHCI_QH_T c\<rparr>
      else qhs s1 a)"
  by (simp add: intrStep_def setupQH_qhs)

lemma GetPhysicalAddrWithType_upd [simp]:
  "GetPhysicalAddrWithType c (q\<lparr>qh_logicalNext := n, hlink := h, firstTD := f, elink := e\<rparr>)
     = GetPhysicalAddrWithType c q"
  by (simp add: GetPhysicalAddrWithType_def)

lemma intrStep_logical:
  "logicalFrameList (intrStep c i lastQ pQ s1) k =
     (if k < kUHCI_NVFRAMES c \<and> k mod 2 ^ i = 2 ^ i - 1 then Some pQ else logicalFrameList s1 k)"
  unfolding intrStep_def frameLoop_level by simp

lemma intrStep_frameList:
  "frameList (intrStep c i lastQ pQ s1) k =
     (if k < kUHCI_NVFRAMES c \<and> k mod 2 ^ i = 2 ^ i - 1
      then GetPhysicalAddrWithType c (qhs (intrStep c i lastQ pQ s1) pQ) else frameList s1 k)"
  unfolding intrStep_def frameLoop_level_frameList by (simp add: setupQH_qhs)

lemma intrStep_wf:
  assumes "pool_wf s1" "pQ \<notin> pool_set s1"
  shows "pool_wf (intrStep c i lastQ pQ s1) \<and> pool_set (intrStep c i lastQ pQ s1) = pool_set s1"
  by (rule pool_wf_upd[where q = pQ, OF assms]) (simp_all add: intrStep_qhs)

text \<open>One iteration, from the state before the allocation.\<close>

lemma intr_iter:
  assumes wf: "pool_wf s" and al: "AllocateQH 0 0 0 0 0 ty s = (Some pQ, s1)"
  shows "pool_wf (intrStep c i lastQ pQ s1)
    \<and> pool_set (intrStep c i lastQ pQ s1) \<subseteq> pool_set s
    \<and> pQ \<in> pool_set s \<and> pQ \<notin> pool_set (intrStep c i lastQ pQ s1)
    \<and> (\<forall>a. a \<notin> pool_set s \<longrightarrow> qhs (intrStep c i lastQ pQ s1) a = qhs s a)"
proof -
  from AllocateQH_wf[OF wf al] have a: "pool_wf s1" "pool_set s1 \<subseteq> pool_set s"
    "pQ \<in> pool_set s" "pQ \<notin> pool_set s1" "\<forall>a. a \<notin> pool_set s \<longrightarrow> qhs s1 a = qhs s a" by auto
  from intrStep_wf[OF a(1,4)] have b: "pool_wf (intrStep c i lastQ pQ s1)"
    "pool_set (intrStep c i lastQ pQ s1) = pool_set s1" by auto
  have "\<forall>a. a \<notin> pool_set s \<longrightarrow> qhs (intrStep c i lastQ pQ s1) a = qhs s a"
    using a(3,5) by (auto simp: intrStep_qhs)
  with a b show ?thesis by simp
qed

lemma intrLoop_wf:
  "pool_wf s \<Longrightarrow> intrLoop c i lastQ s = (b, s') \<Longrightarrow>
     pool_wf s' \<and> pool_set s' \<subseteq> pool_set s \<and> (\<forall>a. a \<notin> pool_set s \<longrightarrow> qhs s' a = qhs s a)
     \<and> io s' = io s \<and> lastQH s' = lastQH s \<and> framesPaddr s' = framesPaddr s"
proof (induction n \<equiv> "kUHCI_NINTR_QHS c - i" arbitrary: i lastQ s)
  case 0
  then show ?case by (simp add: intrLoop_unfold)
next
  case (Suc n)
  then have lt: "i < kUHCI_NINTR_QHS c" by simp
  obtain r s1 where al: "AllocateQH 0 0 0 0 0 (kQHTypeDummy c) s = (r, s1)"
    by (cases "AllocateQH 0 0 0 0 0 (kQHTypeDummy c) s")
  show ?case
  proof (cases r)
    case None
    with al lt Suc.prems(2) have "s' = s1" by (simp add: intrLoop_unfold)
    with AllocateQH_wf[OF Suc.prems(1) al] AllocateQH_other[OF al] show ?thesis by simp
  next
    case (Some pQ)
    let ?s4 = "intrStep c i lastQ pQ s1"
    from al Some lt Suc.prems(2) have r: "intrLoop c (Suc i) pQ ?s4 = (b, s')"
      by (simp add: intrLoop_unfold)
    from intr_iter[OF Suc.prems(1) al[unfolded Some], where c = c and i = i and lastQ = lastQ]
    have it: "pool_wf ?s4" "pool_set ?s4 \<subseteq> pool_set s"
      "\<forall>a. a \<notin> pool_set s \<longrightarrow> qhs ?s4 a = qhs s a" by auto
    have n: "n = kUHCI_NINTR_QHS c - Suc i" using Suc.hyps(2) by simp
    from Suc.hyps(1)[OF n it(1) r]
    have ih: "pool_wf s'" "pool_set s' \<subseteq> pool_set ?s4"
      "\<forall>a. a \<notin> pool_set ?s4 \<longrightarrow> qhs s' a = qhs ?s4 a"
      "io s' = io ?s4" "lastQH s' = lastQH ?s4" "framesPaddr s' = framesPaddr ?s4" by auto
    have "\<forall>a. a \<notin> pool_set s \<longrightarrow> qhs s' a = qhs s a"
      using ih(3) it(2,3) by (metis subsetD)
    moreover have "pool_set s' \<subseteq> pool_set s" using ih(2) it(2) by blast
    ultimately show ?thesis using ih(1,4,5,6) AllocateQH_other[OF al] by simp
  qed
qed

lemma intrLoop_step:
  assumes "i < kUHCI_NINTR_QHS c" "intrLoop c i lastQ s = (True, s')"
  obtains pQ s1 where "AllocateQH 0 0 0 0 0 (kQHTypeDummy c) s = (Some pQ, s1)"
    "intrLoop c (Suc i) pQ (intrStep c i lastQ pQ s1) = (True, s')"
proof -
  obtain r s1 where al: "AllocateQH 0 0 0 0 0 (kQHTypeDummy c) s = (r, s1)"
    by (cases "AllocateQH 0 0 0 0 0 (kQHTypeDummy c) s")
  with assms obtain pQ where "r = Some pQ" by (cases r) (auto simp: intrLoop_unfold)
  with al assms that show ?thesis by (auto simp: intrLoop_unfold)
qed

lemma intrLoop_intrQH:
  "intrLoop c i lastQ s = (True, s') \<Longrightarrow>
     (\<forall>l. l < i \<or> kUHCI_NINTR_QHS c \<le> l \<longrightarrow> intrQH s' l = intrQH s l)
     \<and> (\<forall>l. i \<le> l \<and> l < kUHCI_NINTR_QHS c \<longrightarrow> intrQH s' l \<noteq> None)"
proof (induction n \<equiv> "kUHCI_NINTR_QHS c - i" arbitrary: i lastQ s)
  case 0
  then show ?case by (auto simp: intrLoop_unfold)
next
  case (Suc n)
  then have lt: "i < kUHCI_NINTR_QHS c" by simp
  from intrLoop_step[OF lt Suc.prems] obtain pQ s1 where
    al: "AllocateQH 0 0 0 0 0 (kQHTypeDummy c) s = (Some pQ, s1)" and
    r: "intrLoop c (Suc i) pQ (intrStep c i lastQ pQ s1) = (True, s')" by blast
  have n: "n = kUHCI_NINTR_QHS c - Suc i" using Suc.hyps(2) by simp
  from Suc.hyps(1)[OF n r] have ih:
    "\<forall>l. l < Suc i \<or> kUHCI_NINTR_QHS c \<le> l \<longrightarrow> intrQH s' l = ((intrQH s1)(i := Some pQ)) l"
    "\<forall>l. Suc i \<le> l \<and> l < kUHCI_NINTR_QHS c \<longrightarrow> intrQH s' l \<noteq> None" by auto
  have q1: "intrQH s1 = intrQH s" using AllocateQH_other[OF al] by simp
  have a: "\<forall>l. l < i \<or> kUHCI_NINTR_QHS c \<le> l \<longrightarrow> intrQH s' l = intrQH s l"
    using ih(1) q1 lt by auto
  have "intrQH s' i = Some pQ" using ih(1) by simp
  then have b: "\<forall>l. i \<le> l \<and> l < kUHCI_NINTR_QHS c \<longrightarrow> intrQH s' l \<noteq> None"
    using ih(2) by (metis Suc_leI le_neq_implies_less option.distinct(1))
  from a b show ?case by simp
qed

lemma intrLoop_untouched:
  "intrLoop c i lastQ s = (True, s') \<Longrightarrow>
     kUHCI_NVFRAMES c \<le> k \<or> (\<forall>l. i \<le> l \<and> l < kUHCI_NINTR_QHS c \<longrightarrow> k mod 2 ^ l \<noteq> 2 ^ l - 1)
     \<Longrightarrow> logicalFrameList s' k = logicalFrameList s k \<and> frameList s' k = frameList s k"
proof (induction n \<equiv> "kUHCI_NINTR_QHS c - i" arbitrary: i lastQ s)
  case 0
  then show ?case by (simp add: intrLoop_unfold)
next
  case (Suc n)
  then have lt: "i < kUHCI_NINTR_QHS c" by simp
  from intrLoop_step[OF lt Suc.prems(1)] obtain pQ s1 where
    al: "AllocateQH 0 0 0 0 0 (kQHTypeDummy c) s = (Some pQ, s1)" and
    r: "intrLoop c (Suc i) pQ (intrStep c i lastQ pQ s1) = (True, s')" by blast
  have n: "n = kUHCI_NINTR_QHS c - Suc i" using Suc.hyps(2) by simp
  have c': "kUHCI_NVFRAMES c \<le> k \<or> (\<forall>l. Suc i \<le> l \<and> l < kUHCI_NINTR_QHS c \<longrightarrow> k mod 2 ^ l \<noteq> 2 ^ l - 1)"
    using Suc.prems(2) by auto
  have here: "\<not> (k < kUHCI_NVFRAMES c \<and> k mod 2 ^ i = 2 ^ i - 1)"
    using Suc.prems(2) lt by auto
  from Suc.hyps(1)[OF n r c'] here AllocateQH_other[OF al]
  show ?case by (auto simp: intrStep_logical intrStep_frameList)
qed

lemma intrLoop_logical:
  "intrLoop c i lastQ s = (True, s') \<Longrightarrow> k < kUHCI_NVFRAMES c \<Longrightarrow> i \<le> l
     \<Longrightarrow> l < kUHCI_NINTR_QHS c \<Longrightarrow> k mod 2 ^ l = 2 ^ l - 1
     \<Longrightarrow> (\<forall>l'. l < l' \<and> l' < kUHCI_NINTR_QHS c \<longrightarrow> k mod 2 ^ l' \<noteq> 2 ^ l' - 1)
     \<Longrightarrow> logicalFrameList s' k = intrQH s' l"
proof (induction n \<equiv> "kUHCI_NINTR_QHS c - i" arbitrary: i lastQ s)
  case 0
  then show ?case by simp
next
  case (Suc n)
  then have lt: "i < kUHCI_NINTR_QHS c" by simp
  from intrLoop_step[OF lt Suc.prems(1)] obtain pQ s1 where
    al: "AllocateQH 0 0 0 0 0 (kQHTypeDummy c) s = (Some pQ, s1)" and
    r: "intrLoop c (Suc i) pQ (intrStep c i lastQ pQ s1) = (True, s')" by blast
  have n: "n = kUHCI_NINTR_QHS c - Suc i" using Suc.hyps(2) by simp
  show ?case
  proof (cases "l = i")
    case True
    have "\<forall>l'. Suc i \<le> l' \<and> l' < kUHCI_NINTR_QHS c \<longrightarrow> k mod 2 ^ l' \<noteq> 2 ^ l' - 1"
      using Suc.prems(6) True by auto
    from intrLoop_untouched[OF r, of k] this
    have "logicalFrameList s' k = logicalFrameList (intrStep c i lastQ pQ s1) k" by simp
    also have "\<dots> = Some pQ" using Suc.prems(2,5) True by (simp add: intrStep_logical)
    also have "Some pQ = intrQH s' i" using intrLoop_intrQH[OF r] by simp
    finally show ?thesis using True by simp
  next
    case False
    with Suc.prems(3) have "Suc i \<le> l" by simp
    from Suc.hyps(1)[OF n r Suc.prems(2) this Suc.prems(4,5,6)] show ?thesis .
  qed
qed

lemma intrLoop_links:
  "pool_wf s \<Longrightarrow> lastQ \<notin> pool_set s \<Longrightarrow> intrLoop c i lastQ s = (True, s')
     \<Longrightarrow> i \<le> l \<Longrightarrow> l < kUHCI_NINTR_QHS c \<Longrightarrow>
   \<exists>q. intrQH s' l = Some q \<and> q \<in> pool_set s \<and> q \<notin> pool_set s'
     \<and> (\<forall>l'. l < l' \<and> l' < kUHCI_NINTR_QHS c \<longrightarrow> intrQH s' l' \<noteq> Some q)
     \<and> qh_logicalNext (qhs s' q) = (if l = i then Some lastQ else intrQH s' (l - 1))
     \<and> hlink (qhs s' q) =
          GetPhysicalAddrWithType c (qhs s' (if l = i then lastQ else the (intrQH s' (l - 1))))
     \<and> elink (qhs s' q) = kUHCI_QH_T c \<and> firstTD (qhs s' q) = None
     \<and> (\<forall>k. k < kUHCI_NVFRAMES c \<and> k mod 2 ^ l = 2 ^ l - 1
              \<and> (\<forall>l'. l < l' \<and> l' < kUHCI_NINTR_QHS c \<longrightarrow> k mod 2 ^ l' \<noteq> 2 ^ l' - 1)
            \<longrightarrow> frameList s' k = GetPhysicalAddrWithType c (qhs s' q))"
proof (induction n \<equiv> "kUHCI_NINTR_QHS c - i" arbitrary: i lastQ s l)
  case 0
  then show ?case by simp
next
  case (Suc n)
  then have lt: "i < kUHCI_NINTR_QHS c" by simp
  from intrLoop_step[OF lt Suc.prems(3)] obtain pQ s1 where
    al: "AllocateQH 0 0 0 0 0 (kQHTypeDummy c) s = (Some pQ, s1)" and
    r: "intrLoop c (Suc i) pQ (intrStep c i lastQ pQ s1) = (True, s')" by blast
  let ?s4 = "intrStep c i lastQ pQ s1"
  have n: "n = kUHCI_NINTR_QHS c - Suc i" using Suc.hyps(2) by simp
  from intr_iter[OF Suc.prems(1) al, where c = c and i = i and lastQ = lastQ]
  have it: "pool_wf ?s4" "pool_set ?s4 \<subseteq> pool_set s" "pQ \<in> pool_set s" "pQ \<notin> pool_set ?s4"
    "\<forall>a. a \<notin> pool_set s \<longrightarrow> qhs ?s4 a = qhs s a" by auto
  from intrLoop_wf[OF it(1) r] have st: "pool_set s' \<subseteq> pool_set ?s4"
    "\<forall>a. a \<notin> pool_set ?s4 \<longrightarrow> qhs s' a = qhs ?s4 a" by auto
  have qi: "intrQH s' i = Some pQ" using intrLoop_intrQH[OF r] by simp
  show ?case
  proof (cases "l = i")
    case True
    have neq: "lastQ \<noteq> pQ" using it(3) Suc.prems(2) by auto
    have pq: "qhs s' pQ = qhs ?s4 pQ" using st(2) it(4) by simp
    have lq: "qhs s' lastQ = qhs s1 lastQ"
    proof -
      have "lastQ \<notin> pool_set ?s4" using it(2) Suc.prems(2) by auto
      then have "qhs s' lastQ = qhs ?s4 lastQ" using st(2) by simp
      then show ?thesis using neq by (simp add: intrStep_qhs)
    qed
    have later: "\<forall>l'. i < l' \<and> l' < kUHCI_NINTR_QHS c \<longrightarrow> intrQH s' l' \<noteq> Some pQ"
    proof (intro allI impI)
      fix l' assume l': "i < l' \<and> l' < kUHCI_NINTR_QHS c"
      then have "Suc i \<le> l'" "l' < kUHCI_NINTR_QHS c" by auto
      from Suc.hyps(1)[OF n it(1,4) r this]
      obtain q where "intrQH s' l' = Some q" "q \<in> pool_set ?s4" by blast
      with it(4) show "intrQH s' l' \<noteq> Some pQ" by auto
    qed
    have fl: "\<forall>k. k < kUHCI_NVFRAMES c \<and> k mod 2 ^ i = 2 ^ i - 1
              \<and> (\<forall>l'. i < l' \<and> l' < kUHCI_NINTR_QHS c \<longrightarrow> k mod 2 ^ l' \<noteq> 2 ^ l' - 1)
            \<longrightarrow> frameList s' k = GetPhysicalAddrWithType c (qhs s' pQ)"
    proof (intro allI impI)
      fix k assume k: "k < kUHCI_NVFRAMES c \<and> k mod 2 ^ i = 2 ^ i - 1
              \<and> (\<forall>l'. i < l' \<and> l' < kUHCI_NINTR_QHS c \<longrightarrow> k mod 2 ^ l' \<noteq> 2 ^ l' - 1)"
      then have "\<forall>l'. Suc i \<le> l' \<and> l' < kUHCI_NINTR_QHS c \<longrightarrow> k mod 2 ^ l' \<noteq> 2 ^ l' - 1" by auto
      from intrLoop_untouched[OF r, of k] this have "frameList s' k = frameList ?s4 k" by simp
      also have "\<dots> = GetPhysicalAddrWithType c (qhs ?s4 pQ)"
        using k by (auto simp: intrStep_frameList)
      finally show "frameList s' k = GetPhysicalAddrWithType c (qhs s' pQ)" using pq by simp
    qed
    have "pQ \<notin> pool_set s'" using st(1) it(4) by auto
    moreover have "qh_logicalNext (qhs s' pQ) = Some lastQ" using pq by (simp add: intrStep_qhs)
    moreover have "hlink (qhs s' pQ) = GetPhysicalAddrWithType c (qhs s' lastQ)"
      using pq lq by (simp add: intrStep_qhs)
    moreover have "elink (qhs s' pQ) = kUHCI_QH_T c" "firstTD (qhs s' pQ) = None"
      using pq by (simp_all add: intrStep_qhs)
    ultimately show ?thesis using True qi it(3) later fl by simp
  next
    case False
    with Suc.prems(4) have sl: "Suc i \<le> l" by simp
    from Suc.hyps(1)[OF n it(1,4) r sl Suc.prems(5)]
    obtain q where q: "intrQH s' l = Some q" "q \<in> pool_set ?s4" "q \<notin> pool_set s'"
      "\<forall>l'. l < l' \<and> l' < kUHCI_NINTR_QHS c \<longrightarrow> intrQH s' l' \<noteq> Some q"
      "qh_logicalNext (qhs s' q) = (if l = Suc i then Some pQ else intrQH s' (l - 1))"
      "hlink (qhs s' q) =
          GetPhysicalAddrWithType c (qhs s' (if l = Suc i then pQ else the (intrQH s' (l - 1))))"
      "elink (qhs s' q) = kUHCI_QH_T c" "firstTD (qhs s' q) = None"
      "\<forall>k. k < kUHCI_NVFRAMES c \<and> k mod 2 ^ l = 2 ^ l - 1
              \<and> (\<forall>l'. l < l' \<and> l' < kUHCI_NINTR_QHS c \<longrightarrow> k mod 2 ^ l' \<noteq> 2 ^ l' - 1)
            \<longrightarrow> frameList s' k = GetPhysicalAddrWithType c (qhs s' q)" by blast
    have a: "qh_logicalNext (qhs s' q) = intrQH s' (l - 1)"
      using q(5) qi by (cases "l = Suc i") auto
    have b: "hlink (qhs s' q) = GetPhysicalAddrWithType c (qhs s' (the (intrQH s' (l - 1))))"
      using q(6) qi by (cases "l = Suc i") auto
    have "q \<in> pool_set s" using q(2) it(2) by auto
    with q(1,3,4,7,8,9) a b False show ?thesis by simp
  qed
qed

lemma sliceQHs_anchors [simp]: "anchors (snd (sliceQHs mb i f s)) = anchors s"
  by (induction mb i f s rule: sliceQHs.induct; subst sliceQHs.simps;
      simp add: anchors_def split: option.splits prod.splits)

lemma popQH_anchors [simp]: "anchors (popQH f fn ep dir spd mps ty s) = anchors s"
  by (simp add: popQH_def Let_def anchors_def)

lemma growQHs_anchors: "growQHs mb s = (f, s') \<Longrightarrow> anchors s' = anchors s"
proof -
  assume g: "growQHs mb s = (f, s')"
  let ?s1 = "s\<lparr>qhMBHead := mb # qhMBHead s\<rparr>"
  let ?s2 = "(case slice mb 0 of
                       None \<Rightarrow> ?s1\<lparr>pLastFreeQH := None, pFreeQH := None\<rparr>
                     | Some (a, v) \<Rightarrow>
                         ?s1\<lparr>qhs := (qhs ?s1)(a := v), pLastFreeQH := Some a, pFreeQH := Some a\<rparr>)"
  from g have "s' = snd (sliceQHs mb 1 None ?s2)" by (simp add: growQHs_def Let_def)
  then have "anchors s' = anchors ?s2" by simp
  also have "\<dots> = anchors s" by (simp add: anchors_def split: option.splits)
  finally show ?thesis .
qed

lemma AllocateQH_anchors:
  "AllocateQH fn ep dir spd mps ty s = (r, s') \<Longrightarrow> anchors s' = anchors s"
proof (cases "pFreeQH s")
  case (Some a)
  assume "AllocateQH fn ep dir spd mps ty s = (r, s')"
  with Some have "s' = popQH a fn ep dir spd mps ty s" by (simp add: AllocateQH_def)
  then show ?thesis by simp
next
  case None
  assume al: "AllocateQH fn ep dir spd mps ty s = (r, s')"
  obtain b s0 where nm: "qh_NewMemoryBlock s = (b, s0)" by (cases "qh_NewMemoryBlock s")
  note o0 = qh_NewMemoryBlock_other[OF nm]
  show ?thesis
  proof (cases b)
    case None
    with \<open>pFreeQH s = None\<close> al nm have "s' = s0" by (simp add: AllocateQH_def)
    with o0 show ?thesis by simp
  next
    case (Some mb)
    obtain f s3 where g: "growQHs mb s0 = (f, s3)" by (cases "growQHs mb s0")
    note o = growQHs_anchors[OF g]
    from \<open>pFreeQH s = None\<close> al nm Some g
    have "s' = s3 \<or> (\<exists>a. s' = popQH a fn ep dir spd mps ty s3)"
      by (cases f) (auto simp: AllocateQH_def)
    with o o0 show ?thesis by auto
  qed
qed

lemma setupQH_anchors [simp]: "anchors (setupQH c q nxt s) = anchors s"
  by (simp add: setupQH_def Let_def anchors_def)

lemma frameLoop_anchors [simp]: "anchors (frameLoop c pQ i j s) = anchors s"
  by (induction c pQ i j s rule: frameLoop.induct; subst frameLoop.simps; simp add: anchors_def)

lemma intrStep_anchors [simp]: "anchors (intrStep c i lastQ pQ s1) = anchors s1"
  by (simp add: intrStep_def) (simp add: anchors_def)

lemma intrLoop_anchors: "intrLoop c i lastQ s = (b, s') \<Longrightarrow> anchors s' = anchors s"
proof (induction n \<equiv> "kUHCI_NINTR_QHS c - i" arbitrary: i lastQ s)
  case 0
  then show ?case by (simp add: intrLoop_unfold)
next
  case (Suc n)
  then have lt: "i < kUHCI_NINTR_QHS c" by simp
  obtain r s1 where al: "AllocateQH 0 0 0 0 0 (kQHTypeDummy c) s = (r, s1)"
    by (cases "AllocateQH 0 0 0 0 0 (kQHTypeDummy c) s")
  show ?case
  proof (cases r)
    case None
    with al lt Suc.prems have "s' = s1" by (simp add: intrLoop_unfold)
    with AllocateQH_anchors[OF al] show ?thesis by simp
  next
    case (Some pQ)
    from al Some lt Suc.prems have r: "intrLoop c (Suc i) pQ (intrStep c i lastQ pQ s1) = (b, s')"
      by (simp add: intrLoop_unfold)
    have n: "n = kUHCI_NINTR_QHS c - Suc i" using Suc.hyps(2) by simp
    from Suc.hyps(1)[OF n r] AllocateQH_anchors[OF al] show ?thesis by simp
  qed
qed

lemma slot_level_le: "slot_level N j \<le> N"
  by (induction N) auto

lemma slot_level_hit: "j mod 2 ^ slot_level N j = 2 ^ slot_level N j - 1"
  by (induction N) auto

lemma slot_level_max: "i \<le> N \<Longrightarrow> j mod 2 ^ i = 2 ^ i - 1 \<Longrightarrow> i \<le> slot_level N j"
proof (induction N)
  case 0
  then show ?case by simp
next
  case (Suc N)
  then show ?case by (cases "i = Suc N") auto
qed

lemma trailing_ones:
  fixes j :: nat
  assumes "i \<le> l" "j mod 2 ^ l = 2 ^ l - 1"
  shows "j mod 2 ^ i = 2 ^ i - 1"
proof -
  have "(2::nat) ^ i dvd 2 ^ l" using assms(1) by (simp add: le_imp_power_dvd)
  then have "j mod 2 ^ i = (j mod 2 ^ l) mod 2 ^ i" by (simp add: mod_mod_cancel)
  also have "\<dots> = take_bit i (mask l :: nat)"
    using assms(2) by (simp add: take_bit_eq_mod mask_eq_exp_minus_1)
  also have "\<dots> = mask (min i l)" by (rule take_bit_of_mask)
  also have "\<dots> = 2 ^ i - 1" using assms(1) by (simp add: mask_eq_exp_minus_1 min_def)
  finally show ?thesis .
qed

lemma slot_level_period:
  "i \<le> N \<Longrightarrow> i \<le> slot_level N j \<longleftrightarrow> j mod 2 ^ i = 2 ^ i - 1"
  using trailing_ones[OF _ slot_level_hit, of i N j] slot_level_max[of i N j] by blast

lemma pool_fields_cong:
  "qhs s' = qhs s \<Longrightarrow> pFreeQH s' = pFreeQH s \<Longrightarrow> qh_newBlocks s' = qh_newBlocks s
     \<Longrightarrow> pool_wf s' = pool_wf s \<and> pool_set s' = pool_set s"
  by (simp add: pool_wf_def pool_set_def qh_pool_ok_def)

lemma GetPhysicalAddrWithType_cong:
  "qh_sharedPhysical q = qh_sharedPhysical q' \<Longrightarrow>
     GetPhysicalAddrWithType c q = GetPhysicalAddrWithType c q'"
  by (simp add: GetPhysicalAddrWithType_def)

lemma allocAnchor_any:
  assumes "pool_wf s" "allocAnchor c nxt s = (r, s')"
  shows "pool_wf s' \<and> pool_set s' \<subseteq> pool_set s
     \<and> (\<forall>a. a \<notin> pool_set s \<longrightarrow> qhs s' a = qhs s a)
     \<and> io s' = io s \<and> framesPaddr s' = framesPaddr s \<and> intrQH s' = intrQH s
     \<and> frameList s' = frameList s \<and> logicalFrameList s' = logicalFrameList s
     \<and> anchors s' = anchors s"
proof -
  obtain r1 s1 where al: "AllocateQH 0 0 0 0 0 (kQHTypeDummy c) s = (r1, s1)"
    by (cases "AllocateQH 0 0 0 0 0 (kQHTypeDummy c) s")
  note w = AllocateQH_wf[OF assms(1) al] and o = AllocateQH_other[OF al]
    and an = AllocateQH_anchors[OF al]
  show ?thesis
  proof (cases r1)
    case None
    with al assms(2) have "s' = s1" by (simp add: allocAnchor_def)
    with w o an show ?thesis by simp
  next
    case (Some q)
    with al assms(2) have s': "s' = setupQH c q nxt s1" by (simp add: allocAnchor_def)
    from w Some have q: "q \<in> pool_set s" "q \<notin> pool_set s1" by auto
    from setupQH_wf[OF _ q(2), of c nxt] w have "pool_wf s'" "pool_set s' = pool_set s1"
      using s' by auto
    moreover have "\<forall>a. a \<notin> pool_set s \<longrightarrow> qhs s' a = qhs s a"
      using w q(1) s' by (auto simp: setupQH_qhs)
    ultimately show ?thesis using w o an s' by simp
  qed
qed

lemma allocAnchor_Some:
  assumes "pool_wf s" "\<forall>n. nxt = Some n \<longrightarrow> n \<notin> pool_set s"
    "allocAnchor c nxt s = (Some q, s')"
  shows "q \<in> pool_set s \<and> q \<notin> pool_set s'
     \<and> qh_logicalNext (qhs s' q) = nxt
     \<and> hlink (qhs s' q) = (case nxt of None \<Rightarrow> kUHCI_QH_T c
                             | Some n \<Rightarrow> GetPhysicalAddrWithType c (qhs s' n))
     \<and> elink (qhs s' q) = kUHCI_QH_T c \<and> firstTD (qhs s' q) = None"
proof -
  obtain r1 s1 where al: "AllocateQH 0 0 0 0 0 (kQHTypeDummy c) s = (r1, s1)"
    by (cases "AllocateQH 0 0 0 0 0 (kQHTypeDummy c) s")
  with assms(3) have r1: "r1 = Some q" and s': "s' = setupQH c q nxt s1"
    by (auto simp: allocAnchor_def split: option.splits)
  note w = AllocateQH_wf[OF assms(1) al]
  from w r1 have q: "q \<in> pool_set s" "q \<notin> pool_set s1" by auto
  from setupQH_wf[OF _ q(2), of c nxt] w have ps: "pool_set s' = pool_set s1" using s' by auto
  have "\<forall>n. nxt = Some n \<longrightarrow> qhs s' n = qhs s1 n"
    using assms(2) q(1) s' by (auto simp: setupQH_qhs)
  then have "hlink (qhs s' q) = (case nxt of None \<Rightarrow> kUHCI_QH_T c
                             | Some n \<Rightarrow> GetPhysicalAddrWithType c (qhs s' n))"
    using s' by (auto simp: setupQH_qhs split: option.splits)
  then show ?thesis using q ps s' by (simp add: setupQH_qhs)
qed

lemma buildSchedule_True:
  assumes "buildSchedule c s = (True, s')"
  obtains lastQ s1 bulkQ s2 fsQ s3 lsQ s4 s5 where
    "allocAnchor c None s = (Some lastQ, s1)"
    "allocAnchor c (Some lastQ) (s1\<lparr>lastQH := Some lastQ\<rparr>) = (Some bulkQ, s2)"
    "allocAnchor c (Some bulkQ) (s2\<lparr>bulkQHStart := Some bulkQ, bulkQHEnd := Some bulkQ\<rparr>)
       = (Some fsQ, s3)"
    "allocAnchor c (Some fsQ) (s3\<lparr>fsControlQHStart := Some fsQ, fsControlQHEnd := Some fsQ\<rparr>)
       = (Some lsQ, s4)"
    "intrLoop c 0 lsQ (s4\<lparr>lsControlQHStart := Some lsQ, lsControlQHEnd := Some lsQ\<rparr>) = (True, s5)"
    "s' = s5\<lparr>qhs := (qhs s5)(lastQ :=
                     qh_SetPhysicalLink (GetPhysicalAddrWithType c (qhs s5 fsQ) OR kUHCI_QH_T c)
                       (qhs s5 lastQ))\<rparr>"
  using assms unfolding buildSchedule_def
  by (auto split: prod.splits option.splits bool.splits)

lemma buildSchedule_ok:
  assumes wf: "pool_wf s" and bs: "buildSchedule c s = (True, s')"
  shows "\<exists>lastQ bulkQ fsQ lsQ.
      anchors s' = [Some lastQ, Some bulkQ, Some bulkQ, Some fsQ, Some fsQ, Some lsQ, Some lsQ]
    \<and> distinct [lastQ, bulkQ, fsQ, lsQ]
    \<and> qh_logicalNext (qhs s' lastQ) = None
    \<and> hlink (qhs s' lastQ) = GetPhysicalAddrWithType c (qhs s' fsQ) OR kUHCI_QH_T c
    \<and> qh_logicalNext (qhs s' bulkQ) = Some lastQ
    \<and> hlink (qhs s' bulkQ) = GetPhysicalAddrWithType c (qhs s' lastQ)
    \<and> qh_logicalNext (qhs s' fsQ) = Some bulkQ
    \<and> hlink (qhs s' fsQ) = GetPhysicalAddrWithType c (qhs s' bulkQ)
    \<and> qh_logicalNext (qhs s' lsQ) = Some fsQ
    \<and> hlink (qhs s' lsQ) = GetPhysicalAddrWithType c (qhs s' fsQ)
    \<and> (\<forall>l. l < kUHCI_NINTR_QHS c \<longrightarrow>
          (\<exists>q. intrQH s' l = Some q \<and> q \<notin> {lastQ, bulkQ, fsQ, lsQ}
             \<and> (\<forall>l'. l < l' \<and> l' < kUHCI_NINTR_QHS c \<longrightarrow> intrQH s' l' \<noteq> Some q)
             \<and> qh_logicalNext (qhs s' q) = (if l = 0 then Some lsQ else intrQH s' (l - 1))
             \<and> hlink (qhs s' q) =
                 GetPhysicalAddrWithType c (qhs s' (if l = 0 then lsQ else the (intrQH s' (l - 1))))
             \<and> elink (qhs s' q) = kUHCI_QH_T c \<and> firstTD (qhs s' q) = None
             \<and> (\<forall>k. k < kUHCI_NVFRAMES c \<and> k mod 2 ^ l = 2 ^ l - 1
                    \<and> (\<forall>l'. l < l' \<and> l' < kUHCI_NINTR_QHS c \<longrightarrow> k mod 2 ^ l' \<noteq> 2 ^ l' - 1)
                  \<longrightarrow> logicalFrameList s' k = Some q
                      \<and> frameList s' k = GetPhysicalAddrWithType c (qhs s' q))))
    \<and> (\<forall>l. kUHCI_NINTR_QHS c \<le> l \<longrightarrow> intrQH s' l = intrQH s l)
    \<and> io s' = io s \<and> framesPaddr s' = framesPaddr s"
proof -
  from buildSchedule_True[OF bs] obtain lastQ s1 bulkQ s2 fsQ s3 lsQ s4 s5 where
    a1: "allocAnchor c None s = (Some lastQ, s1)" and
    a2: "allocAnchor c (Some lastQ) (s1\<lparr>lastQH := Some lastQ\<rparr>) = (Some bulkQ, s2)" and
    a3: "allocAnchor c (Some bulkQ) (s2\<lparr>bulkQHStart := Some bulkQ, bulkQHEnd := Some bulkQ\<rparr>)
       = (Some fsQ, s3)" and
    a4: "allocAnchor c (Some fsQ) (s3\<lparr>fsControlQHStart := Some fsQ, fsControlQHEnd := Some fsQ\<rparr>)
       = (Some lsQ, s4)" and
    il: "intrLoop c 0 lsQ (s4\<lparr>lsControlQHStart := Some lsQ, lsControlQHEnd := Some lsQ\<rparr>) = (True, s5)" and
    s': "s' = s5\<lparr>qhs := (qhs s5)(lastQ :=
                     qh_SetPhysicalLink (GetPhysicalAddrWithType c (qhs s5 fsQ) OR kUHCI_QH_T c)
                       (qhs s5 lastQ))\<rparr>"
    by blast
  let ?t1 = "s1\<lparr>lastQH := Some lastQ\<rparr>"
  let ?t2 = "s2\<lparr>bulkQHStart := Some bulkQ, bulkQHEnd := Some bulkQ\<rparr>"
  let ?t3 = "s3\<lparr>fsControlQHStart := Some fsQ, fsControlQHEnd := Some fsQ\<rparr>"
  let ?t4 = "s4\<lparr>lsControlQHStart := Some lsQ, lsControlQHEnd := Some lsQ\<rparr>"
  \<comment> \<open>stage 1\<close>
  note x1 = allocAnchor_any[OF wf a1] and y1 = allocAnchor_Some[OF wf _ a1]
  have t1: "pool_wf ?t1" "pool_set ?t1 = pool_set s1" "qhs ?t1 = qhs s1"
    using x1 pool_fields_cong[of ?t1 s1] by simp_all
  have l1: "lastQ \<notin> pool_set ?t1" using y1 t1 by simp
  \<comment> \<open>stage 2\<close>
  note x2 = allocAnchor_any[OF t1(1) a2]
  have y2: "bulkQ \<in> pool_set ?t1 \<and> bulkQ \<notin> pool_set s2
     \<and> qh_logicalNext (qhs s2 bulkQ) = Some lastQ
     \<and> hlink (qhs s2 bulkQ) = GetPhysicalAddrWithType c (qhs s2 lastQ)
     \<and> elink (qhs s2 bulkQ) = kUHCI_QH_T c \<and> firstTD (qhs s2 bulkQ) = None"
    using allocAnchor_Some[OF t1(1) _ a2] l1 by simp
  have t2: "pool_wf ?t2" "pool_set ?t2 = pool_set s2" "qhs ?t2 = qhs s2"
    using x2 pool_fields_cong[of ?t2 s2] by simp_all
  have l2: "lastQ \<notin> pool_set ?t2" "bulkQ \<notin> pool_set ?t2" using l1 x2 y2 t2 by auto
  \<comment> \<open>stage 3\<close>
  note x3 = allocAnchor_any[OF t2(1) a3]
  have y3: "fsQ \<in> pool_set ?t2 \<and> fsQ \<notin> pool_set s3
     \<and> qh_logicalNext (qhs s3 fsQ) = Some bulkQ
     \<and> hlink (qhs s3 fsQ) = GetPhysicalAddrWithType c (qhs s3 bulkQ)
     \<and> elink (qhs s3 fsQ) = kUHCI_QH_T c \<and> firstTD (qhs s3 fsQ) = None"
    using allocAnchor_Some[OF t2(1) _ a3] l2 by simp
  have t3: "pool_wf ?t3" "pool_set ?t3 = pool_set s3" "qhs ?t3 = qhs s3"
    using x3 pool_fields_cong[of ?t3 s3] by simp_all
  have l3: "lastQ \<notin> pool_set ?t3" "bulkQ \<notin> pool_set ?t3" "fsQ \<notin> pool_set ?t3"
    using l2 x3 y3 t3 by auto
  \<comment> \<open>stage 4\<close>
  note x4 = allocAnchor_any[OF t3(1) a4]
  have y4: "lsQ \<in> pool_set ?t3 \<and> lsQ \<notin> pool_set s4
     \<and> qh_logicalNext (qhs s4 lsQ) = Some fsQ
     \<and> hlink (qhs s4 lsQ) = GetPhysicalAddrWithType c (qhs s4 fsQ)
     \<and> elink (qhs s4 lsQ) = kUHCI_QH_T c \<and> firstTD (qhs s4 lsQ) = None"
    using allocAnchor_Some[OF t3(1) _ a4] l3 by simp
  have t4: "pool_wf ?t4" "pool_set ?t4 = pool_set s4" "qhs ?t4 = qhs s4"
    using x4 pool_fields_cong[of ?t4 s4] by simp_all
  have l4: "lastQ \<notin> pool_set ?t4" "bulkQ \<notin> pool_set ?t4" "fsQ \<notin> pool_set ?t4"
    "lsQ \<notin> pool_set ?t4"
    using l3 x4 y4 t4 by auto
  have dist: "distinct [lastQ, bulkQ, fsQ, lsQ]"
    using l1 y2 l2 y3 l3 y4 by auto
  \<comment> \<open>the anchors in \<open>?t4\<close>\<close>
  have q2: "qhs s2 lastQ = qhs s1 lastQ" using x2 l1 t1 by simp
  have q3: "qhs s3 lastQ = qhs s1 lastQ" "qhs s3 bulkQ = qhs s2 bulkQ"
    using x3 l2 t2 q2 by simp_all
  have q4: "qhs s4 lastQ = qhs s1 lastQ" "qhs s4 bulkQ = qhs s2 bulkQ" "qhs s4 fsQ = qhs s3 fsQ"
    using x4 l3 t3 q3 by simp_all
  \<comment> \<open>the interrupt loop\<close>
  note w5 = intrLoop_wf[OF t4(1) il]
  have q5: "qhs s5 lastQ = qhs s1 lastQ" "qhs s5 bulkQ = qhs s2 bulkQ" "qhs s5 fsQ = qhs s3 fsQ"
    "qhs s5 lsQ = qhs s4 lsQ"
    using w5 l4 t4 q4 by simp_all
  \<comment> \<open>the final state\<close>
  have f_next: "\<And>a. qh_logicalNext (qhs s' a) = qh_logicalNext (qhs s5 a)"
    and f_phys: "\<And>a. GetPhysicalAddrWithType c (qhs s' a) = GetPhysicalAddrWithType c (qhs s5 a)"
    and f_other: "\<And>a. a \<noteq> lastQ \<Longrightarrow> qhs s' a = qhs s5 a"
    and f_last: "hlink (qhs s' lastQ) = GetPhysicalAddrWithType c (qhs s5 fsQ) OR kUHCI_QH_T c"
    by (simp_all add: s' qh_SetPhysicalLink_def GetPhysicalAddrWithType_def)
  have f_fields: "intrQH s' = intrQH s5" "logicalFrameList s' = logicalFrameList s5"
    "frameList s' = frameList s5" "io s' = io s5" "framesPaddr s' = framesPaddr s5"
    "anchors s' = anchors s5"
    by (simp_all add: s' anchors_def)
  have an: "anchors s' = [Some lastQ, Some bulkQ, Some bulkQ, Some fsQ, Some fsQ, Some lsQ, Some lsQ]"
  proof -
    have "anchors s5 = anchors ?t4" by (rule intrLoop_anchors[OF il])
    moreover have "lastQH s4 = Some lastQ" "bulkQHStart s4 = Some bulkQ" "bulkQHEnd s4 = Some bulkQ"
      "fsControlQHStart s4 = Some fsQ" "fsControlQHEnd s4 = Some fsQ"
      using x2 x3 x4 by (simp_all add: anchors_def)
    ultimately show ?thesis using f_fields(6) by (simp add: anchors_def)
  qed
  have c1: "qh_logicalNext (qhs s' lastQ) = None" using f_next q5 y1 by simp
  have c2: "hlink (qhs s' lastQ) = GetPhysicalAddrWithType c (qhs s' fsQ) OR kUHCI_QH_T c"
    using f_last f_phys by simp
  have c3: "qh_logicalNext (qhs s' bulkQ) = Some lastQ"
    "hlink (qhs s' bulkQ) = GetPhysicalAddrWithType c (qhs s' lastQ)"
    using f_next f_phys f_other[of bulkQ] dist q5 y2 q2 by simp_all
  have c4: "qh_logicalNext (qhs s' fsQ) = Some bulkQ"
    "hlink (qhs s' fsQ) = GetPhysicalAddrWithType c (qhs s' bulkQ)"
    using f_next f_phys f_other[of fsQ] dist q5 y3 q3 by simp_all
  have c5: "qh_logicalNext (qhs s' lsQ) = Some fsQ"
    "hlink (qhs s' lsQ) = GetPhysicalAddrWithType c (qhs s' fsQ)"
    using f_next f_phys f_other[of lsQ] dist q5 y4 q4 by simp_all
  have lev: "\<forall>l. l < kUHCI_NINTR_QHS c \<longrightarrow>
          (\<exists>q. intrQH s' l = Some q \<and> q \<notin> {lastQ, bulkQ, fsQ, lsQ}
             \<and> (\<forall>l'. l < l' \<and> l' < kUHCI_NINTR_QHS c \<longrightarrow> intrQH s' l' \<noteq> Some q)
             \<and> qh_logicalNext (qhs s' q) = (if l = 0 then Some lsQ else intrQH s' (l - 1))
             \<and> hlink (qhs s' q) =
                 GetPhysicalAddrWithType c (qhs s' (if l = 0 then lsQ else the (intrQH s' (l - 1))))
             \<and> elink (qhs s' q) = kUHCI_QH_T c \<and> firstTD (qhs s' q) = None
             \<and> (\<forall>k. k < kUHCI_NVFRAMES c \<and> k mod 2 ^ l = 2 ^ l - 1
                    \<and> (\<forall>l'. l < l' \<and> l' < kUHCI_NINTR_QHS c \<longrightarrow> k mod 2 ^ l' \<noteq> 2 ^ l' - 1)
                  \<longrightarrow> logicalFrameList s' k = Some q
                      \<and> frameList s' k = GetPhysicalAddrWithType c (qhs s' q)))"
  proof (intro allI impI)
    fix l assume l: "l < kUHCI_NINTR_QHS c"
    from intrLoop_links[OF t4(1) l4(4) il _ l]
    obtain q where q: "intrQH s5 l = Some q" "q \<in> pool_set ?t4"
      "\<forall>l'. l < l' \<and> l' < kUHCI_NINTR_QHS c \<longrightarrow> intrQH s5 l' \<noteq> Some q"
      "qh_logicalNext (qhs s5 q) = (if l = 0 then Some lsQ else intrQH s5 (l - 1))"
      "hlink (qhs s5 q) =
          GetPhysicalAddrWithType c (qhs s5 (if l = 0 then lsQ else the (intrQH s5 (l - 1))))"
      "elink (qhs s5 q) = kUHCI_QH_T c" "firstTD (qhs s5 q) = None"
      "\<forall>k. k < kUHCI_NVFRAMES c \<and> k mod 2 ^ l = 2 ^ l - 1
              \<and> (\<forall>l'. l < l' \<and> l' < kUHCI_NINTR_QHS c \<longrightarrow> k mod 2 ^ l' \<noteq> 2 ^ l' - 1)
            \<longrightarrow> frameList s5 k = GetPhysicalAddrWithType c (qhs s5 q)" by auto
    have ne: "q \<notin> {lastQ, bulkQ, fsQ, lsQ}" using q(2) l4 by auto
    then have same: "qhs s' q = qhs s5 q" using f_other by simp
    have lg: "\<forall>k. k < kUHCI_NVFRAMES c \<and> k mod 2 ^ l = 2 ^ l - 1
              \<and> (\<forall>l'. l < l' \<and> l' < kUHCI_NINTR_QHS c \<longrightarrow> k mod 2 ^ l' \<noteq> 2 ^ l' - 1)
            \<longrightarrow> logicalFrameList s5 k = Some q"
      using intrLoop_logical[OF il _ _ l] q(1) by simp
    show "\<exists>q. intrQH s' l = Some q \<and> q \<notin> {lastQ, bulkQ, fsQ, lsQ}
             \<and> (\<forall>l'. l < l' \<and> l' < kUHCI_NINTR_QHS c \<longrightarrow> intrQH s' l' \<noteq> Some q)
             \<and> qh_logicalNext (qhs s' q) = (if l = 0 then Some lsQ else intrQH s' (l - 1))
             \<and> hlink (qhs s' q) =
                 GetPhysicalAddrWithType c (qhs s' (if l = 0 then lsQ else the (intrQH s' (l - 1))))
             \<and> elink (qhs s' q) = kUHCI_QH_T c \<and> firstTD (qhs s' q) = None
             \<and> (\<forall>k. k < kUHCI_NVFRAMES c \<and> k mod 2 ^ l = 2 ^ l - 1
                    \<and> (\<forall>l'. l < l' \<and> l' < kUHCI_NINTR_QHS c \<longrightarrow> k mod 2 ^ l' \<noteq> 2 ^ l' - 1)
                  \<longrightarrow> logicalFrameList s' k = Some q
                      \<and> frameList s' k = GetPhysicalAddrWithType c (qhs s' q))"
      apply (rule exI[of _ q])
      using q ne lg by (simp add: f_fields same f_phys)
  qed
  have hi: "\<forall>l. kUHCI_NINTR_QHS c \<le> l \<longrightarrow> intrQH s' l = intrQH s l"
    using intrLoop_intrQH[OF il] f_fields(1) x1 x2 x3 x4 by simp
  have io: "io s' = io s" "framesPaddr s' = framesPaddr s"
    using f_fields w5 x1 x2 x3 x4 by simp_all
  from an dist c1 c2 c3 c4 c5 lev hi io show ?thesis by blast
qed

lemma HardwareInit_sched:
  "Reset_result s0 = kIOReturnSuccess \<Longrightarrow> fst (InitializeBufferMemory_result s0) = kIOReturnSuccess
   \<Longrightarrow> HardwareInit c s0 =
       (case buildSchedule c (preSchedule s0) of
          (False, s5) \<Rightarrow> (kIOReturnNoMemory, s5)
        | (True, s5) \<Rightarrow>
            (Run_result s5,
             s5\<lparr>io := io s5 @ [Command (kUHCI_CMD_MAXP c OR kUHCI_CMD_CF c),
                                ioWrite16 kUHCI_INTR (kUHCI_INTR_ALL c), Run True]\<rparr>))"
  by (simp add: HardwareInit_def preSchedule_def Let_def split: prod.splits bool.splits)

lemma intrLoop_io: "intrLoop c i lastQ s = (b, s') \<Longrightarrow> io s' = io s"
proof (induction n \<equiv> "kUHCI_NINTR_QHS c - i" arbitrary: i lastQ s)
  case 0
  then show ?case by (simp add: intrLoop_unfold)
next
  case (Suc n)
  then have lt: "i < kUHCI_NINTR_QHS c" by simp
  obtain r s1 where al: "AllocateQH 0 0 0 0 0 (kQHTypeDummy c) s = (r, s1)"
    by (cases "AllocateQH 0 0 0 0 0 (kQHTypeDummy c) s")
  show ?case
  proof (cases r)
    case None
    with al lt Suc.prems have "s' = s1" by (simp add: intrLoop_unfold)
    with AllocateQH_other[OF al] show ?thesis by simp
  next
    case (Some pQ)
    from al Some lt Suc.prems have r: "intrLoop c (Suc i) pQ (intrStep c i lastQ pQ s1) = (b, s')"
      by (simp add: intrLoop_unfold)
    have n: "n = kUHCI_NINTR_QHS c - Suc i" using Suc.hyps(2) by simp
    from Suc.hyps(1)[OF n r] AllocateQH_other[OF al] show ?thesis by simp
  qed
qed

lemma allocAnchor_io: "allocAnchor c nxt s = (r, s') \<Longrightarrow> io s' = io s"
proof -
  assume a: "allocAnchor c nxt s = (r, s')"
  obtain r1 s1 where al: "AllocateQH 0 0 0 0 0 (kQHTypeDummy c) s = (r1, s1)"
    by (cases "AllocateQH 0 0 0 0 0 (kQHTypeDummy c) s")
  with a have "s' = s1 \<or> (\<exists>q. s' = setupQH c q nxt s1)"
    by (cases r1) (auto simp: allocAnchor_def)
  with AllocateQH_other[OF al] show ?thesis by auto
qed

text \<open>Where a failed construction stopped.\<close>

lemma buildSchedule_False:
  assumes "buildSchedule c s = (False, s')"
  shows "allocAnchor c None s = (None, s')
    \<or> (\<exists>lastQ s1. allocAnchor c None s = (Some lastQ, s1)
        \<and> (allocAnchor c (Some lastQ) (s1\<lparr>lastQH := Some lastQ\<rparr>) = (None, s')
          \<or> (\<exists>bulkQ s2. allocAnchor c (Some lastQ) (s1\<lparr>lastQH := Some lastQ\<rparr>) = (Some bulkQ, s2)
            \<and> (allocAnchor c (Some bulkQ) (s2\<lparr>bulkQHStart := Some bulkQ, bulkQHEnd := Some bulkQ\<rparr>)
                  = (None, s')
              \<or> (\<exists>fsQ s3. allocAnchor c (Some bulkQ)
                     (s2\<lparr>bulkQHStart := Some bulkQ, bulkQHEnd := Some bulkQ\<rparr>) = (Some fsQ, s3)
                \<and> (allocAnchor c (Some fsQ)
                      (s3\<lparr>fsControlQHStart := Some fsQ, fsControlQHEnd := Some fsQ\<rparr>) = (None, s')
                  \<or> (\<exists>lsQ s4. allocAnchor c (Some fsQ)
                        (s3\<lparr>fsControlQHStart := Some fsQ, fsControlQHEnd := Some fsQ\<rparr>)
                          = (Some lsQ, s4)
                     \<and> intrLoop c 0 lsQ
                          (s4\<lparr>lsControlQHStart := Some lsQ, lsControlQHEnd := Some lsQ\<rparr>)
                          = (False, s'))))))))"
  using assms unfolding buildSchedule_def
  by (auto split: prod.splits option.splits bool.splits)

lemma buildSchedule_io: "buildSchedule c s = (b, s') \<Longrightarrow> io s' = io s"
proof (cases b)
  case True
  assume "buildSchedule c s = (b, s')"
  with True have bs: "buildSchedule c s = (True, s')" by simp
  from buildSchedule_True[OF bs] obtain lastQ s1 bulkQ s2 fsQ s3 lsQ s4 s5 where
    a1: "allocAnchor c None s = (Some lastQ, s1)" and
    a2: "allocAnchor c (Some lastQ) (s1\<lparr>lastQH := Some lastQ\<rparr>) = (Some bulkQ, s2)" and
    a3: "allocAnchor c (Some bulkQ) (s2\<lparr>bulkQHStart := Some bulkQ, bulkQHEnd := Some bulkQ\<rparr>)
       = (Some fsQ, s3)" and
    a4: "allocAnchor c (Some fsQ) (s3\<lparr>fsControlQHStart := Some fsQ, fsControlQHEnd := Some fsQ\<rparr>)
       = (Some lsQ, s4)" and
    il: "intrLoop c 0 lsQ (s4\<lparr>lsControlQHStart := Some lsQ, lsControlQHEnd := Some lsQ\<rparr>) = (True, s5)" and
    s': "s' = s5\<lparr>qhs := (qhs s5)(lastQ :=
                     qh_SetPhysicalLink (GetPhysicalAddrWithType c (qhs s5 fsQ) OR kUHCI_QH_T c)
                       (qhs s5 lastQ))\<rparr>"
    by blast
  from allocAnchor_io[OF a1] allocAnchor_io[OF a2] allocAnchor_io[OF a3] allocAnchor_io[OF a4]
    intrLoop_io[OF il] s' show ?thesis by simp
next
  case False
  assume "buildSchedule c s = (b, s')"
  with False have bs: "buildSchedule c s = (False, s')" by simp
  from buildSchedule_False[OF bs] show ?thesis
    by (elim disjE exE conjE)
       (auto dest!: allocAnchor_io intrLoop_io)
qed

lemma HardwareInit_completed:
  assumes "HardwareInit c s0 = (r, s')" "last (io s') = Run True"
  shows "Reset_result s0 = kIOReturnSuccess \<and> fst (InitializeBufferMemory_result s0) = kIOReturnSuccess
    \<and> (\<exists>s5. buildSchedule c (preSchedule s0) = (True, s5)
          \<and> s' = s5\<lparr>io := io s5 @ [Command (kUHCI_CMD_MAXP c OR kUHCI_CMD_CF c),
                                ioWrite16 kUHCI_INTR (kUHCI_INTR_ALL c), Run True]\<rparr>)"
proof -
  have r: "Reset_result s0 = kIOReturnSuccess"
  proof (rule ccontr)
    assume "Reset_result s0 \<noteq> kIOReturnSuccess"
    with assms(1) have "io s' = io s0 @ [ioWrite16 kUHCI_INTR 0, GlobalReset, Reset]"
      by (auto simp: HardwareInit_def Let_def)
    with assms(2) show False by simp
  qed
  have b: "fst (InitializeBufferMemory_result s0) = kIOReturnSuccess"
  proof (rule ccontr)
    assume "fst (InitializeBufferMemory_result s0) \<noteq> kIOReturnSuccess"
    with assms(1) r have "io s' = io s0 @ [ioWrite16 kUHCI_INTR 0, GlobalReset, Reset] @ [InitializeBufferMemory]"
      by (auto simp: HardwareInit_def Let_def)
    with assms(2) show False by simp
  qed
  obtain ok s5 where bs: "buildSchedule c (preSchedule s0) = (ok, s5)"
    by (cases "buildSchedule c (preSchedule s0)")
  have "ok"
  proof (rule ccontr)
    assume "\<not> ok"
    with bs HardwareInit_sched[OF r b, of c] assms(1) have "s' = s5" by simp
    with buildSchedule_io[OF bs] have "io s' = io (preSchedule s0)" by simp
    with assms(2) show False by (simp add: preSchedule_def)
  qed
  with bs HardwareInit_sched[OF r b, of c] assms(1) r b show ?thesis by auto
qed

lemma preSchedule_pool:
  "pool_wf (preSchedule s0) = pool_wf s0" "pool_set (preSchedule s0) = pool_set s0"
  using pool_fields_cong[of "preSchedule s0" s0] by (simp_all add: preSchedule_def)

lemmas sched_eval = HardwareInit_def buildSchedule_def allocAnchor_def AllocateQH_def growQHs_def
  qh_NewMemoryBlock_def
  sliceQHs.simps popQH_def setupQH_def intrLoop.simps frameLoop.simps Let_def
  uhci_small_def qh_block_def qh_blank_def sched0_def kIOReturnSuccess_def kIOReturnNoMemory_def
  GetPhysicalAddrWithType_def qh_SetPhysicalLink_def




lemma pool_wf_sched0: "0 < n \<Longrightarrow> pool_wf (sched0 n)"
proof -
  assume n: "0 < n"
  have "distinct (map (\<lambda>i. 100 + i) [0..<n])" by (simp add: distinct_map inj_on_def)
  moreover have "slice_addrs (qh_block n) 0 = map (\<lambda>i. 100 + i) [0..<n]"
  proof -
    have "List.map_filter (slice (qh_block n)) [0..<n]
            = map (\<lambda>i. (100 + i, qh_blank (0x1000 + 0x20 * of_nat i))) [0..<n]"
      by (induction n) (simp_all add: map_filter_def qh_block_def)
    then show ?thesis by (simp add: slice_addrs_def qh_block_def comp_def)
  qed
  ultimately have "qh_pool_ok (sched0 n) []"
    using n by (simp_all add: qh_pool_ok_def sched0_def pending_addrs_def block_ok_def qh_block_def
        qh_blank_def slice_addrs_end)
  then show ?thesis by (auto simp: pool_wf_def)
qed

subsection \<open>HardwareInit\<close>

lemma HardwareInit_built:
  assumes "pool_wf s0" "HardwareInit c s0 = (r, s')" "last (io s') = Run True"
  obtains s5 where "buildSchedule c (preSchedule s0) = (True, s5)" "pool_wf (preSchedule s0)"
    "qhs s' = qhs s5" "intrQH s' = intrQH s5" "logicalFrameList s' = logicalFrameList s5"
    "frameList s' = frameList s5" "anchors s' = anchors s5" "intrQH (preSchedule s0) = intrQH s0"
proof -
  from HardwareInit_completed[OF assms(2,3)] obtain s5 where
    b: "buildSchedule c (preSchedule s0) = (True, s5)" and
    s': "s' = s5\<lparr>io := io s5 @ [Command (kUHCI_CMD_MAXP c OR kUHCI_CMD_CF c),
                                ioWrite16 kUHCI_INTR (kUHCI_INTR_ALL c), Run True]\<rparr>" by blast
  show ?thesis
    by (rule that[OF b]) (simp_all add: preSchedule_pool assms(1) s' anchors_def, simp add: preSchedule_def)
qed

text \<open>
  C2.  With \<open>2 ^ N\<close> virtual frames and \<open>N + 1\<close> interrupt levels, a completed
  \<^verbatim>\<open>HardwareInit\<close> (one that got to \<^verbatim>\<open>Run(true)\<close>) has created \<open>N + 1\<close> pairwise
  distinct interrupt queue heads and touched no other entry of \<^verbatim>\<open>_intrQH\<close>; every
  frame slot \<open>j\<close> resolves, in the logical and in the hardware frame list, to the
  queue head of the largest level \<open>i \<le> N\<close> with \<open>j mod 2 ^ i = 2 ^ i - 1\<close> (the
  later, coarser levels have overwritten the finer ones); the slots whose level is
  at least \<open>i\<close> are exactly those with \<open>j mod 2 ^ i = 2 ^ i - 1\<close>, every
  \<open>2 ^ i\<close>-th slot; and the queue head of level \<open>i > 0\<close> links to that of level
  \<open>i - 1\<close>, so that the queue head of level \<open>i\<close> is polled from exactly those slots:
  with period \<open>2 ^ i\<close>.
\<close>

theorem interrupt_ladder:
  assumes "kUHCI_NVFRAMES c = 2 ^ N" and "kUHCI_NINTR_QHS c = N + 1" and "pool_wf s0"
    and "HardwareInit c s0 = (r, s')" and "last (io s') = Run True"
  shows "(\<forall>i\<le>N. \<exists>q. intrQH s' i = Some q \<and> (\<forall>i'. i < i' \<and> i' \<le> N \<longrightarrow> intrQH s' i' \<noteq> Some q))
     \<and> (\<forall>i. N < i \<longrightarrow> intrQH s' i = intrQH s0 i)
     \<and> (\<forall>j<2 ^ N. slot_level N j \<le> N \<and> j mod 2 ^ slot_level N j = 2 ^ slot_level N j - 1
            \<and> (\<forall>i\<le>N. j mod 2 ^ i = 2 ^ i - 1 \<longrightarrow> i \<le> slot_level N j)
            \<and> (\<exists>q. intrQH s' (slot_level N j) = Some q \<and> logicalFrameList s' j = Some q
                   \<and> frameList s' j = GetPhysicalAddrWithType c (qhs s' q)))
     \<and> (\<forall>i\<le>N. \<forall>j. (i \<le> slot_level N j) = (j mod 2 ^ i = 2 ^ i - 1))
     \<and> (\<forall>i. 0 < i \<and> i \<le> N \<longrightarrow>
           (\<exists>q p. intrQH s' i = Some q \<and> intrQH s' (i - 1) = Some p
                  \<and> qh_logicalNext (qhs s' q) = Some p
                  \<and> hlink (qhs s' q) = GetPhysicalAddrWithType c (qhs s' p)))"
proof -
  from HardwareInit_built[OF assms(3,4,5)] obtain s5 where
    b: "buildSchedule c (preSchedule s0) = (True, s5)" and wf: "pool_wf (preSchedule s0)" and
    eq: "qhs s' = qhs s5" "intrQH s' = intrQH s5" "logicalFrameList s' = logicalFrameList s5"
    "frameList s' = frameList s5" and i0: "intrQH (preSchedule s0) = intrQH s0" by blast
  from buildSchedule_ok[OF wf b] obtain lastQ bulkQ fsQ lsQ where
    lev: "\<forall>l. l < kUHCI_NINTR_QHS c \<longrightarrow>
          (\<exists>q. intrQH s5 l = Some q \<and> q \<notin> {lastQ, bulkQ, fsQ, lsQ}
             \<and> (\<forall>l'. l < l' \<and> l' < kUHCI_NINTR_QHS c \<longrightarrow> intrQH s5 l' \<noteq> Some q)
             \<and> qh_logicalNext (qhs s5 q) = (if l = 0 then Some lsQ else intrQH s5 (l - 1))
             \<and> hlink (qhs s5 q) =
                 GetPhysicalAddrWithType c (qhs s5 (if l = 0 then lsQ else the (intrQH s5 (l - 1))))
             \<and> elink (qhs s5 q) = kUHCI_QH_T c \<and> firstTD (qhs s5 q) = None
             \<and> (\<forall>k. k < kUHCI_NVFRAMES c \<and> k mod 2 ^ l = 2 ^ l - 1
                    \<and> (\<forall>l'. l < l' \<and> l' < kUHCI_NINTR_QHS c \<longrightarrow> k mod 2 ^ l' \<noteq> 2 ^ l' - 1)
                  \<longrightarrow> logicalFrameList s5 k = Some q
                      \<and> frameList s5 k = GetPhysicalAddrWithType c (qhs s5 q)))" and
    hi: "\<forall>l. kUHCI_NINTR_QHS c \<le> l \<longrightarrow> intrQH s5 l = intrQH (preSchedule s0) l"
    by blast
  have M: "\<And>l. l < kUHCI_NINTR_QHS c \<longleftrightarrow> l \<le> N" using assms(2) by auto
  have p1: "\<forall>i\<le>N. \<exists>q. intrQH s' i = Some q \<and> (\<forall>i'. i < i' \<and> i' \<le> N \<longrightarrow> intrQH s' i' \<noteq> Some q)"
  proof (intro allI impI)
    fix i assume "i \<le> N"
    with lev M obtain q where "intrQH s5 i = Some q"
      "\<forall>l'. i < l' \<and> l' < kUHCI_NINTR_QHS c \<longrightarrow> intrQH s5 l' \<noteq> Some q" by blast
    then show "\<exists>q. intrQH s' i = Some q \<and> (\<forall>i'. i < i' \<and> i' \<le> N \<longrightarrow> intrQH s' i' \<noteq> Some q)"
      using M eq(2) by auto
  qed
  have p2: "\<forall>i. N < i \<longrightarrow> intrQH s' i = intrQH s0 i"
    using hi i0 eq(2) assms(2) by simp
  have p3: "\<forall>j<2 ^ N. slot_level N j \<le> N \<and> j mod 2 ^ slot_level N j = 2 ^ slot_level N j - 1
            \<and> (\<forall>i\<le>N. j mod 2 ^ i = 2 ^ i - 1 \<longrightarrow> i \<le> slot_level N j)
            \<and> (\<exists>q. intrQH s' (slot_level N j) = Some q \<and> logicalFrameList s' j = Some q
                   \<and> frameList s' j = GetPhysicalAddrWithType c (qhs s' q))"
  proof (intro allI impI)
    fix j :: nat assume j: "j < 2 ^ N"
    let ?l = "slot_level N j"
    have l: "?l < kUHCI_NINTR_QHS c" using slot_level_le[of N j] M by simp
    have top: "\<forall>l'. ?l < l' \<and> l' < kUHCI_NINTR_QHS c \<longrightarrow> j mod 2 ^ l' \<noteq> 2 ^ l' - 1"
      using slot_level_max[of _ N j] M by (metis not_less)
    from lev l obtain q where q: "intrQH s5 ?l = Some q"
      "\<forall>k. k < kUHCI_NVFRAMES c \<and> k mod 2 ^ ?l = 2 ^ ?l - 1
                    \<and> (\<forall>l'. ?l < l' \<and> l' < kUHCI_NINTR_QHS c \<longrightarrow> k mod 2 ^ l' \<noteq> 2 ^ l' - 1)
                  \<longrightarrow> logicalFrameList s5 k = Some q
                      \<and> frameList s5 k = GetPhysicalAddrWithType c (qhs s5 q)" by blast
    from q(2) j top slot_level_hit[of j N] assms(1)
    have "logicalFrameList s5 j = Some q \<and> frameList s5 j = GetPhysicalAddrWithType c (qhs s5 q)"
      by simp
    with q(1) eq show "slot_level N j \<le> N \<and> j mod 2 ^ slot_level N j = 2 ^ slot_level N j - 1
            \<and> (\<forall>i\<le>N. j mod 2 ^ i = 2 ^ i - 1 \<longrightarrow> i \<le> slot_level N j)
            \<and> (\<exists>q. intrQH s' (slot_level N j) = Some q \<and> logicalFrameList s' j = Some q
                   \<and> frameList s' j = GetPhysicalAddrWithType c (qhs s' q))"
      using slot_level_le[of N j] slot_level_hit[of j N] slot_level_max[of _ N j] by simp
  qed
  have p4: "\<forall>i\<le>N. \<forall>j. (i \<le> slot_level N j) = (j mod 2 ^ i = 2 ^ i - 1)"
    using slot_level_period by blast
  have p5: "\<forall>i. 0 < i \<and> i \<le> N \<longrightarrow>
           (\<exists>q p. intrQH s' i = Some q \<and> intrQH s' (i - 1) = Some p
                  \<and> qh_logicalNext (qhs s' q) = Some p
                  \<and> hlink (qhs s' q) = GetPhysicalAddrWithType c (qhs s' p))"
  proof (intro allI impI)
    fix i assume i: "0 < i \<and> i \<le> N"
    with lev M obtain q where q: "intrQH s5 i = Some q"
      "qh_logicalNext (qhs s5 q) = intrQH s5 (i - 1)"
      "hlink (qhs s5 q) = GetPhysicalAddrWithType c (qhs s5 (the (intrQH s5 (i - 1))))"
      by (metis less_numeral_extra(3))
    from i have "i - 1 \<le> N" by linarith
    with M have "i - 1 < kUHCI_NINTR_QHS c" by blast
    with lev obtain p where p: "intrQH s5 (i - 1) = Some p" by blast
    with q eq show "\<exists>q p. intrQH s' i = Some q \<and> intrQH s' (i - 1) = Some p
                  \<and> qh_logicalNext (qhs s' q) = Some p
                  \<and> hlink (qhs s' q) = GetPhysicalAddrWithType c (qhs s' p)" by simp
  qed
  from p1 p2 p3 p4 p5 show ?thesis by blast
qed

text \<open>
  C6, as amended.  After a completed \<^verbatim>\<open>HardwareInit\<close> the hardware link of the tail
  dummy queue head holds the physical address of the full-speed control queue head
  with the queue-head-type bit and also the terminate bit set (the source: "start
  with a terminated list"), and the software next pointer of the tail queue head
  is null.
\<close>

theorem reclamation_link_terminated:
  assumes "pool_wf s0" and "HardwareInit c s0 = (r, s')" and "last (io s') = Run True"
  shows "\<exists>lastQ fsQ. lastQH s' = Some lastQ \<and> fsControlQHStart s' = Some fsQ
           \<and> hlink (qhs s' lastQ) = GetPhysicalAddrWithType c (qhs s' fsQ) OR kUHCI_QH_T c
           \<and> qh_logicalNext (qhs s' lastQ) = None"
proof -
  from HardwareInit_built[OF assms] obtain s5 where
    b: "buildSchedule c (preSchedule s0) = (True, s5)" and wf: "pool_wf (preSchedule s0)" and
    eq: "qhs s' = qhs s5" "anchors s' = anchors s5" by blast
  from buildSchedule_ok[OF wf b] obtain lastQ bulkQ fsQ lsQ where
    a: "anchors s5 = [Some lastQ, Some bulkQ, Some bulkQ, Some fsQ, Some fsQ, Some lsQ, Some lsQ]"
    "qh_logicalNext (qhs s5 lastQ) = None"
    "hlink (qhs s5 lastQ) = GetPhysicalAddrWithType c (qhs s5 fsQ) OR kUHCI_QH_T c" by blast
  from a(1) eq(2) have "lastQH s' = Some lastQ" "fsControlQHStart s' = Some fsQ"
    by (simp_all add: anchors_def)
  with a(2,3) eq(1) show ?thesis by simp
qed


lemma sched_done_eval:
  "fst (HardwareInit uhci_small (sched0 8)) = kIOReturnSuccess
   \<and> io sched_done = [ioWrite16 kUHCI_INTR 0, GlobalReset, Reset, InitializeBufferMemory,
        ioWrite16 kUHCI_FRNUM 0, ioWrite32 kUHCI_FRBASEADDR 0x8000, Command 0xC0,
        ioWrite16 kUHCI_INTR 0x0F, Run True]
   \<and> map (logicalFrameList sched_done) [0, 1, 2, 3] = [Some 103, Some 102, Some 103, Some 101]
   \<and> map (frameList sched_done) [0, 1, 2, 3] = [0x1062, 0x1042, 0x1062, 0x1022]
   \<and> map (intrQH sched_done) [0, 1, 2] = [Some 103, Some 102, Some 101]
   \<and> lastQH sched_done = Some 107 \<and> fsControlQHStart sched_done = Some 105
   \<and> hlink (qhs sched_done 107) = 0x10A3
   \<and> qh_sharedPhysical (qhs sched_done 105) = 0x10A0
   \<and> qh_logicalNext (qhs sched_done 107) = None"
  by (simp add: sched_done_def sched_eval)


text \<open>Witness for C2: four frames, three levels.\<close>

theorem interrupt_ladder_witness:
  "kUHCI_NVFRAMES uhci_small = 2 ^ 2 \<and> kUHCI_NINTR_QHS uhci_small = 2 + 1 \<and> pool_wf (sched0 8)
   \<and> last (io sched_done) = Run True
   \<and> slot_level 2 3 = 2 \<and> intrQH sched_done 2 = Some 101
   \<and> logicalFrameList sched_done 3 = Some 101
   \<and> frameList sched_done 3 = GetPhysicalAddrWithType uhci_small (qhs sched_done 101)
   \<and> map (logicalFrameList sched_done) [0, 1, 2, 3] = [Some 103, Some 102, Some 103, Some 101]"
proof -
  have h1: "kUHCI_NVFRAMES uhci_small = 2 ^ 2" and h2: "kUHCI_NINTR_QHS uhci_small = 2 + 1"
    by (simp_all add: uhci_small_def)
  have h3: "pool_wf (sched0 8)" by (rule pool_wf_sched0) simp
  have h4: "HardwareInit uhci_small (sched0 8)
              = (fst (HardwareInit uhci_small (sched0 8)), sched_done)"
    by (simp add: sched_done_def)
  have h5: "last (io sched_done) = Run True" using sched_done_eval by simp
  have l: "slot_level 2 3 = 2" by (simp add: numeral_2_eq_2)
  have q: "intrQH sched_done 2 = Some 101" using sched_done_eval by simp
  from interrupt_ladder[OF h1 h2 h3 h4 h5]
  have "\<forall>j<2 ^ 2. \<exists>q. intrQH sched_done (slot_level 2 j) = Some q
          \<and> logicalFrameList sched_done j = Some q
          \<and> frameList sched_done j = GetPhysicalAddrWithType uhci_small (qhs sched_done q)"
    by blast
  then have "\<exists>q. intrQH sched_done (slot_level 2 3) = Some q
          \<and> logicalFrameList sched_done 3 = Some q
          \<and> frameList sched_done 3 = GetPhysicalAddrWithType uhci_small (qhs sched_done q)"
    by simp
  with l q have "logicalFrameList sched_done 3 = Some 101"
    "frameList sched_done 3 = GetPhysicalAddrWithType uhci_small (qhs sched_done 101)" by auto
  with h1 h2 h3 h5 l q sched_done_eval show ?thesis by simp
qed

text \<open>Witness for C6 as amended.\<close>

theorem reclamation_link_terminated_witness:
  "pool_wf (sched0 8) \<and> last (io sched_done) = Run True
   \<and> lastQH sched_done = Some 107 \<and> fsControlQHStart sched_done = Some 105
   \<and> hlink (qhs sched_done 107)
        = GetPhysicalAddrWithType uhci_small (qhs sched_done 105) OR kUHCI_QH_T uhci_small
   \<and> qh_logicalNext (qhs sched_done 107) = None"
proof -
  have h3: "pool_wf (sched0 8)" by (rule pool_wf_sched0) simp
  have h4: "HardwareInit uhci_small (sched0 8)
              = (fst (HardwareInit uhci_small (sched0 8)), sched_done)"
    by (simp add: sched_done_def)
  have h5: "last (io sched_done) = Run True" using sched_done_eval by simp
  have a: "lastQH sched_done = Some 107" "fsControlQHStart sched_done = Some 105"
    using sched_done_eval by simp_all
  from reclamation_link_terminated[OF h3 h4 h5] a
  have "hlink (qhs sched_done 107)
        = GetPhysicalAddrWithType uhci_small (qhs sched_done 105) OR kUHCI_QH_T uhci_small
   \<and> qh_logicalNext (qhs sched_done 107) = None" by auto
  with h3 h5 a show ?thesis by simp
qed

text \<open>
  C6 as stated fails: after the construction the hardware link of the tail queue
  head is not the physical address of the full-speed control queue head with the
  queue-head-type bit set; its terminate bit is set, so the hardware does not
  follow it.
\<close>

theorem reclamation_link_counterexample:
  "last (io sched_done) = Run True
   \<and> lastQH sched_done = Some 107 \<and> fsControlQHStart sched_done = Some 105
   \<and> hlink (qhs sched_done 107) \<noteq> GetPhysicalAddrWithType uhci_small (qhs sched_done 105)
   \<and> hlink (qhs sched_done 107) AND kUHCI_QH_T uhci_small \<noteq> 0"
  using sched_done_eval by (simp add: GetPhysicalAddrWithType_def uhci_small_def)



subsection \<open>UHCIUIMDoDoneQueueProcessing\<close>

lemma dispatch_events_append [simp]:
  "dispatch_events (xs @ ys) = dispatch_events xs @ dispatch_events ys"
  by (simp add: dispatch_events_def)

lemma doneStep_cases:
  assumes pq: "lastTDofTransaction (tds s t) \<and> handle s t \<noteq> None \<longrightarrow> pQH (tds s t) \<noteq> None"
    and tl: "tailQH s \<noteq> None"
  shows "\<exists>acc' rem' s'. doneStep c fe t acc rem s = Some (acc', rem', s')
     \<and> (\<forall>x. x \<noteq> t \<longrightarrow> tds s' x = tds s x)
     \<and> logicalNext (tds s' t) = logicalNext (tds s t)
     \<and> pLastFreeTD s' = pLastFreeTD s \<and> pFreeTD s' = pFreeTD s
     \<and> commands s' = commands s \<and> tailQH s' = tailQH s
     \<and> (let st = (if fe \<noteq> kIOReturnSuccess then fe
                   else if acc \<noteq> kIOReturnSuccess then acc
                   else TDToUSBError c (ctrlStatus (tds s t)));
             acc1 = (if fe \<noteq> kIOReturnSuccess then acc else st);
             r = rem + (UHCI_TD_GET_MAXLEN c (token (tds s t)) - UHCI_TD_GET_ACTLEN c (ctrlStatus (tds s t)))
         in if lastTDofTransaction (tds s t) then
              (case handle s t of
                 Some cmd \<Rightarrow> acc' = kIOReturnSuccess \<and> rem' = 0
                     \<and> dispatch_events (events s') = dispatch_events (events s) @ [Complete cmd st r]
               | None \<Rightarrow> acc' = acc1 \<and> rem' = r
                     \<and> dispatch_events (events s') = dispatch_events (events s) @ [USBError (missing_handle s t)])
            else acc' = acc1 \<and> rem' = r \<and> dispatch_events (events s') = dispatch_events (events s))"
  using assms
  by (auto simp: doneStep_def Let_def emit_def td_upd_def qh_upd_def handle_def missing_handle_def
                 dispatch_events_def kIOReturnSuccess_def qh_SetPhysicalLink_def
           split: option.splits)

lemma td_path_cong:
  "(\<forall>x\<in>set xs. h' x = h x) \<Longrightarrow> td_path h' p xs e = td_path h p xs e"
  by (induction xs arbitrary: p) auto

lemma handle_cong:
  "tds s' t = tds s t \<Longrightarrow> commands s' = commands s \<Longrightarrow> handle s' t = handle s t"
  by (auto simp: handle_def split: option.splits)

lemma missing_handle_cong:
  "tds s' t = tds s t \<Longrightarrow> missing_handle s' t = missing_handle s t"
  by (simp add: missing_handle_def)

lemma doneList_cong:
  "(\<forall>x\<in>set xs. tds s' x = tds s x) \<Longrightarrow> commands s' = commands s
     \<Longrightarrow> doneList c s' fe acc rem xs = doneList c s fe acc rem xs"
proof (induction xs arbitrary: acc rem fe)
  case Nil
  show ?case by simp
next
  case (Cons t ts)
  have t: "tds s' t = tds s t" using Cons.prems by simp
  have ih: "\<And>f a r. doneList c s' f a r ts = doneList c s f a r ts"
    using Cons.IH Cons.prems by simp
  show ?case
    by (simp add: Let_def t ih handle_cong[OF t Cons.prems(2)] missing_handle_cong[OF t]
             split: option.splits)
qed

text \<open>Appending a descriptor to the free list.\<close>

lemma td_path_snoc:
  "td_path h p F None \<Longrightarrow> F \<noteq> [] \<Longrightarrow> distinct F \<Longrightarrow> t \<notin> set F \<Longrightarrow> logicalNext T = None \<Longrightarrow>
   td_path (h(t := T, last F := (h (last F))\<lparr>logicalNext := Some t\<rparr>)) p (F @ [t]) None"
proof (induction F arbitrary: p)
  case Nil
  then show ?case by simp
next
  case (Cons a F)
  show ?case
  proof (cases F)
    case Nil
    with Cons.prems show ?thesis by auto
  next
    case (Cons b G)
    with Cons.prems have la: "last (a # F) = last F" and ne: "a \<noteq> last F" "a \<noteq> t"
      and Fne: "F \<noteq> []" by auto
    have p': "td_path h (logicalNext (h a)) F None" using Cons.prems(1) by simp
    have d': "distinct F" "t \<notin> set F" using Cons.prems(3,4) by simp_all
    note ih = Cons.IH[OF p' Fne d'(1) d'(2) Cons.prems(5)]
    have pa: "p = Some a" using Cons.prems(1) by simp
    have h2a: "(h(t := T, last F := (h (last F))\<lparr>logicalNext := Some t\<rparr>)) a = h a"
      using ne by simp
    show ?thesis unfolding la append_Cons td_path.simps h2a using ih pa by blast
  qed
qed

lemma DeallocateTD_free:
  fixes s :: "'a td_pool_scheme"
  assumes fl: "free_list s F" and t: "t \<notin> set F"
  shows "free_list (DeallocateTD t s) (F @ [t])"
    and "ctrlStatus (tds (DeallocateTD t s) t) = 0"
    and "\<forall>x. x \<noteq> t \<longrightarrow> ctrlStatus (tds (DeallocateTD t s) x) = ctrlStatus (tds s x)"
    and "\<forall>x. x \<noteq> t \<and> x \<notin> set F \<longrightarrow> tds (DeallocateTD t s) x = tds s x"
proof -
  let ?T = "(tds s t)\<lparr>ctrlStatus := 0, logicalNext := None\<rparr>"
  show "free_list (DeallocateTD t s) (F @ [t])"
  proof (cases "F = []")
    case True
    with fl show ?thesis by (simp add: free_list_def DeallocateTD_def Let_def)
  next
    case False
    with fl have pl: "pLastFreeTD s = Some (last F)" and p: "td_path (tds s) (pFreeTD s) F None"
      and d: "distinct F" by (simp_all add: free_list_def)
    have lt: "last F \<noteq> t" using False t by (metis last_in_set)
    have h: "tds (DeallocateTD t s) =
               (tds s)(t := ?T, last F := (tds s (last F))\<lparr>logicalNext := Some t\<rparr>)"
      using pl lt by (simp add: DeallocateTD_def Let_def)
    have pf: "pFreeTD (DeallocateTD t s) = pFreeTD s" "pLastFreeTD (DeallocateTD t s) = Some t"
      using pl by (simp_all add: DeallocateTD_def Let_def)
    from td_path_snoc[OF p False d t, of ?T]
    show ?thesis unfolding free_list_def h pf using d t by simp
  qed
  show "ctrlStatus (tds (DeallocateTD t s) t) = 0"
    by (auto simp: DeallocateTD_def Let_def split: option.splits)
  show "\<forall>x. x \<noteq> t \<longrightarrow> ctrlStatus (tds (DeallocateTD t s) x) = ctrlStatus (tds s x)"
    by (auto simp: DeallocateTD_def Let_def split: option.splits)
  show "\<forall>x. x \<noteq> t \<and> x \<notin> set F \<longrightarrow> tds (DeallocateTD t s) x = tds s x"
    using fl by (auto simp: DeallocateTD_def Let_def free_list_def split: option.splits if_splits)
qed

lemma DeallocateTD_fields:
  fixes s :: uhci
  shows "commands (DeallocateTD t s) = commands s"
    and "tailQH (DeallocateTD t s) = tailQH s"
    and "events (DeallocateTD t s) = events s"
  by (auto simp: DeallocateTD_def Let_def split: option.splits)

lemma free_list_cong:
  "tds s' = tds s \<Longrightarrow> pFreeTD s' = pFreeTD s \<Longrightarrow> pLastFreeTD s' = pLastFreeTD s
     \<Longrightarrow> free_list s' F = free_list s F"
  by (simp add: free_list_def)

lemma free_list_upd:
  "free_list s F \<Longrightarrow> t \<notin> set F \<Longrightarrow> pFreeTD s' = pFreeTD s \<Longrightarrow> pLastFreeTD s' = pLastFreeTD s
     \<Longrightarrow> (\<forall>x. x \<noteq> t \<longrightarrow> tds s' x = tds s x) \<Longrightarrow> free_list s' F"
proof -
  assume a: "free_list s F" "t \<notin> set F" "pFreeTD s' = pFreeTD s" "pLastFreeTD s' = pLastFreeTD s"
    "\<forall>x. x \<noteq> t \<longrightarrow> tds s' x = tds s x"
  have "\<forall>x\<in>set F. tds s' x = tds s x" using a(2,5) by auto
  from td_path_cong[OF this] a(1,3,4) show ?thesis by (simp add: free_list_def)
qed

lemma doneLoop_chain:
  assumes "td_path (tds s) p xs stopAt"
      and "distinct xs"
      and "\<forall>t\<in>set xs. stopAt \<noteq> Some t"
      and "\<forall>t\<in>set xs. lastTDofTransaction (tds s t) \<and> handle s t \<noteq> None \<longrightarrow> pQH (tds s t) \<noteq> None"
      and "tailQH s \<noteq> None"
      and "free_list s F"
      and "set F \<inter> set xs = {}"
  shows "\<exists>s'. doneLoop c fe stopAt p acc rem s = Some s'
           \<and> dispatch_events (events s') = dispatch_events (events s) @ doneList c s fe acc rem xs
           \<and> free_list s' (F @ xs)
           \<and> (\<forall>t\<in>set xs. ctrlStatus (tds s' t) = 0)
           \<and> (\<forall>x. x \<notin> set xs \<longrightarrow> ctrlStatus (tds s' x) = ctrlStatus (tds s x))"
  using assms
proof (induction xs arbitrary: s p acc rem F)
  case Nil
  then show ?case by (auto simp: doneLoop.simps split: option.splits)
next
  case (Cons t ts)
  have p: "p = Some t" and path: "td_path (tds s) (logicalNext (tds s t)) ts stopAt"
    using Cons.prems(1) by simp_all
  have nt: "t \<notin> set ts" and dts: "distinct ts" using Cons.prems(2) by simp_all
  have ns: "Some t \<noteq> stopAt" using Cons.prems(3) by auto
  have pq: "lastTDofTransaction (tds s t) \<and> handle s t \<noteq> None \<longrightarrow> pQH (tds s t) \<noteq> None"
    using Cons.prems(4) by simp
  have tF: "t \<notin> set F" and tsF: "set F \<inter> set ts = {}" using Cons.prems(7) by auto
  obtain acc' rem' s1 where
    st: "doneStep c fe t acc rem s = Some (acc', rem', s1)"
    and fr: "\<forall>x. x \<noteq> t \<longrightarrow> tds s1 x = tds s x"
    and pl: "pLastFreeTD s1 = pLastFreeTD s" "pFreeTD s1 = pFreeTD s"
    and cm: "commands s1 = commands s" and tq: "tailQH s1 = tailQH s"
    and ev: "(let st = (if fe \<noteq> kIOReturnSuccess then fe
                   else if acc \<noteq> kIOReturnSuccess then acc
                   else TDToUSBError c (ctrlStatus (tds s t)));
             acc1 = (if fe \<noteq> kIOReturnSuccess then acc else st);
             r = rem + (UHCI_TD_GET_MAXLEN c (token (tds s t)) - UHCI_TD_GET_ACTLEN c (ctrlStatus (tds s t)))
         in if lastTDofTransaction (tds s t) then
              (case handle s t of
                 Some cmd \<Rightarrow> acc' = kIOReturnSuccess \<and> rem' = 0
                     \<and> dispatch_events (events s1) = dispatch_events (events s) @ [Complete cmd st r]
               | None \<Rightarrow> acc' = acc1 \<and> rem' = r
                     \<and> dispatch_events (events s1) = dispatch_events (events s) @ [USBError (missing_handle s t)])
            else acc' = acc1 \<and> rem' = r \<and> dispatch_events (events s1) = dispatch_events (events s))"
    using doneStep_cases[OF pq Cons.prems(5), of c fe acc rem] by blast
  define s1' where "s1' = emit (Deallocate t) (td_upd t (\<lambda>d. d\<lparr>logicalBuffer := None\<rparr>) s1)"
  define s2 where "s2 = DeallocateTD t s1'"
  have s1'_tds: "\<forall>x. x \<noteq> t \<longrightarrow> tds s1' x = tds s x"
    using fr by (simp add: s1'_def emit_def td_upd_def)
  have s1'_cs: "\<forall>x. x \<noteq> t \<longrightarrow> ctrlStatus (tds s1' x) = ctrlStatus (tds s x)"
    using s1'_tds by simp
  have fl1: "free_list s1' F"
    by (rule free_list_upd[OF Cons.prems(6) tF _ _ s1'_tds])
       (simp_all add: s1'_def emit_def td_upd_def pl)
  note D = DeallocateTD_free[OF fl1 tF]
  have fl2: "free_list s2 (F @ [t])" unfolding s2_def by (rule D(1))
  have s2_tds: "\<forall>x\<in>set ts. tds s2 x = tds s x"
  proof
    fix x assume x: "x \<in> set ts"
    then have "x \<noteq> t" "x \<notin> set F" using nt tsF by auto
    then show "tds s2 x = tds s x" using D(4) s1'_tds by (simp add: s2_def)
  qed
  have s2_cm: "commands s2 = commands s"
    by (simp add: s2_def DeallocateTD_fields s1'_def emit_def td_upd_def cm)
  have s2_tq: "tailQH s2 = tailQH s"
    by (simp add: s2_def DeallocateTD_fields s1'_def emit_def td_upd_def tq)
  have s2_ev: "dispatch_events (events s2) = dispatch_events (events s1) @ [Deallocate t]"
    by (simp add: s2_def DeallocateTD_fields s1'_def emit_def td_upd_def dispatch_events_def)
  have path2: "td_path (tds s2) (logicalNext (tds s t)) ts stopAt"
    using path td_path_cong[OF s2_tds] by simp
  have pre3: "\<forall>x\<in>set ts. stopAt \<noteq> Some x" using Cons.prems(3) by simp
  have pre4: "\<forall>x\<in>set ts. lastTDofTransaction (tds s2 x) \<and> handle s2 x \<noteq> None \<longrightarrow> pQH (tds s2 x) \<noteq> None"
  proof
    fix x assume x: "x \<in> set ts"
    then have e: "tds s2 x = tds s x" using s2_tds by simp
    show "lastTDofTransaction (tds s2 x) \<and> handle s2 x \<noteq> None \<longrightarrow> pQH (tds s2 x) \<noteq> None"
      using Cons.prems(4) x handle_cong[OF e s2_cm] e by simp
  qed
  have tq2: "tailQH s2 \<noteq> None" using s2_tq Cons.prems(5) by simp
  have dj2: "set (F @ [t]) \<inter> set ts = {}" using tsF nt by auto
  obtain s' where
    r: "doneLoop c fe stopAt (logicalNext (tds s t)) acc' rem' s2 = Some s'"
    and e: "dispatch_events (events s') = dispatch_events (events s2) @ doneList c s2 fe acc' rem' ts"
    and f: "free_list s' ((F @ [t]) @ ts)"
    and z: "\<forall>x\<in>set ts. ctrlStatus (tds s' x) = 0"
    and o: "\<forall>x. x \<notin> set ts \<longrightarrow> ctrlStatus (tds s' x) = ctrlStatus (tds s2 x)"
    using Cons.IH[OF path2 dts pre3 pre4 tq2 fl2 dj2, of acc' rem'] by blast
  have dc: "doneList c s2 fe acc' rem' ts = doneList c s fe acc' rem' ts"
    by (rule doneList_cong[OF s2_tds s2_cm])
  have run: "doneLoop c fe stopAt p acc rem s = Some s'"
    using r ns by (subst doneLoop.simps) (simp add: p st s2_def s1'_def Let_def)
  have evs: "dispatch_events (events s') = dispatch_events (events s) @ doneList c s fe acc rem (t # ts)"
    using ev e s2_ev dc by (auto simp: Let_def split: option.splits if_splits)
  have zt: "ctrlStatus (tds s' t) = 0" using o nt D(2) by (simp add: s2_def)
  have ot: "\<forall>x. x \<notin> set (t # ts) \<longrightarrow> ctrlStatus (tds s' x) = ctrlStatus (tds s x)"
    using o D(3) s1'_cs by (simp add: s2_def)
  from run evs f z zt ot show ?case by auto
qed

lemma doneList_rest:
  "\<forall>t\<in>set rest. \<not> lastTDofTransaction (tds s t) \<Longrightarrow>
     doneList c s fe acc rem rest = map Deallocate rest"
  by (induction rest arbitrary: acc rem) (simp_all add: Let_def)

lemma first_error_Cons:
  "first_error c s (t # ts) =
     (if TDToUSBError c (ctrlStatus (tds s t)) \<noteq> kIOReturnSuccess
      then TDToUSBError c (ctrlStatus (tds s t)) else first_error c s ts)"
  by (simp add: first_error_def)

lemma first_error_Nil: "first_error c s [] = kIOReturnSuccess"
  by (simp add: first_error_def)

lemma txn_residual_Cons:
  "txn_residual c s (t # ts) =
     (UHCI_TD_GET_MAXLEN c (token (tds s t)) - UHCI_TD_GET_ACTLEN c (ctrlStatus (tds s t)))
       + txn_residual c s ts"
  by (simp add: txn_residual_def)

lemma txn_residual_Nil: "txn_residual c s [] = 0"
  by (simp add: txn_residual_def)

text \<open>The loop over one transaction, from any value of the two accumulators.\<close>

lemma doneList_txn:
  "is_txn s txn \<Longrightarrow>
   doneList c s fe acc rem (txn @ ys) =
     map Deallocate (butlast txn) @
     (case handle s (last txn) of
        Some cmd \<Rightarrow>
          Complete cmd (if fe \<noteq> kIOReturnSuccess then fe
                        else if acc \<noteq> kIOReturnSuccess then acc else first_error c s txn)
                       (rem + txn_residual c s txn)
            # Deallocate (last txn) # doneList c s fe kIOReturnSuccess 0 ys
      | None \<Rightarrow>
          USBError (missing_handle s (last txn)) # Deallocate (last txn)
            # doneList c s fe (if fe \<noteq> kIOReturnSuccess then acc
                               else if acc \<noteq> kIOReturnSuccess then acc else first_error c s txn)
                (rem + txn_residual c s txn) ys)"
proof (induction txn arbitrary: acc rem)
  case Nil
  then show ?case by (simp add: is_txn_def)
next
  case (Cons t ts)
  let ?E = "TDToUSBError c (ctrlStatus (tds s t))"
  let ?d = "UHCI_TD_GET_MAXLEN c (token (tds s t)) - UHCI_TD_GET_ACTLEN c (ctrlStatus (tds s t))"
  show ?case
  proof (cases "ts = []")
    case True
    then have "lastTDofTransaction (tds s t)" using Cons.prems by (simp add: is_txn_def)
    then show ?thesis using True
      by (simp add: Let_def first_error_Cons first_error_Nil txn_residual_Cons txn_residual_Nil
               split: option.splits)
  next
    case False
    then have nl: "\<not> lastTDofTransaction (tds s t)" and tx: "is_txn s ts"
      using Cons.prems by (auto simp: is_txn_def)
    have l: "last (t # ts) = last ts" "butlast (t # ts) = t # butlast ts"
      using False by simp_all
    let ?a1 = "if fe \<noteq> kIOReturnSuccess then acc
               else if acc \<noteq> kIOReturnSuccess then acc else ?E"
    have step: "doneList c s fe acc rem ((t # ts) @ ys) =
                  Deallocate t # doneList c s fe ?a1 (rem + ?d) (ts @ ys)"
      using nl by (simp add: Let_def)
    have st: "(if fe \<noteq> kIOReturnSuccess then fe
               else if ?a1 \<noteq> kIOReturnSuccess then ?a1 else first_error c s ts)
            = (if fe \<noteq> kIOReturnSuccess then fe
               else if acc \<noteq> kIOReturnSuccess then acc else first_error c s (t # ts))"
      by (simp add: first_error_Cons)
    have ac: "(if fe \<noteq> kIOReturnSuccess then ?a1
               else if ?a1 \<noteq> kIOReturnSuccess then ?a1 else first_error c s ts)
            = (if fe \<noteq> kIOReturnSuccess then acc
               else if acc \<noteq> kIOReturnSuccess then acc else first_error c s (t # ts))"
      by (simp add: first_error_Cons)
    have rs: "rem + ?d + txn_residual c s ts = rem + txn_residual c s (t # ts)"
      by (simp add: txn_residual_Cons add.assoc)
    show ?thesis
      unfolding step l Cons.IH[OF tx] st ac rs by simp
  qed
qed

lemma doneList_txns:
  "\<forall>txn\<in>set txns. is_txn s txn \<Longrightarrow> \<forall>txn\<in>set (butlast txns). handle s (last txn) \<noteq> None
     \<Longrightarrow> \<forall>t\<in>set rest. \<not> lastTDofTransaction (tds s t) \<Longrightarrow>
   doneList c s fe kIOReturnSuccess 0 (concat txns @ rest) =
     concat (map (txn_events c s fe) txns) @ map Deallocate rest"
proof (induction txns)
  case Nil
  then show ?case by (simp add: doneList_rest)
next
  case (Cons txn more)
  have tx: "is_txn s txn" using Cons.prems(1) by simp
  note dt = doneList_txn[OF tx, of c fe kIOReturnSuccess 0]
  show ?case
  proof (cases "more = []")
    case True
    show ?thesis
      using True dt[of rest] doneList_rest[OF Cons.prems(3)]
      by (simp add: txn_events_def txn_status_def split: option.splits)
  next
    case False
    then obtain cmd where h: "handle s (last txn) = Some cmd" using Cons.prems(2) by auto
    have ih: "doneList c s fe kIOReturnSuccess 0 (concat more @ rest) =
                concat (map (txn_events c s fe) more) @ map Deallocate rest"
      using Cons.IH Cons.prems False by simp
    have hd: "txn_events c s fe txn =
                map Deallocate (butlast txn) @
                [Complete cmd (txn_status c s fe txn) (txn_residual c s txn), Deallocate (last txn)]"
      using h by (simp add: txn_events_def)
    have stt: "(if fe \<noteq> kIOReturnSuccess then fe
                else if kIOReturnSuccess \<noteq> kIOReturnSuccess then kIOReturnSuccess
                else first_error c s txn) = txn_status c s fe txn"
      by (simp add: txn_status_def)
    have "doneList c s fe kIOReturnSuccess 0 (txn @ concat more @ rest) =
            txn_events c s fe txn @ concat (map (txn_events c s fe) more) @ map Deallocate rest"
      unfolding dt[of "concat more @ rest"] h stt ih hd by simp
    then show ?thesis by simp
  qed
qed

lemma txn_last_only:
  assumes "\<forall>txn\<in>set txns. is_txn s txn" "t \<in> set (concat txns)" "lastTDofTransaction (tds s t)"
  shows "\<exists>txn\<in>set txns. t = last txn"
proof -
  from assms(2) obtain txn where tx: "txn \<in> set txns" "t \<in> set txn" by auto
  with assms(1) have it: "is_txn s txn" by simp
  then have ne: "txn \<noteq> []" by (simp add: is_txn_def)
  have "t = last txn"
  proof (rule ccontr)
    assume "t \<noteq> last txn"
    with tx(2) ne have "t \<in> set (butlast txn)"
      by (metis append_butlast_last_id in_set_conv_decomp set_ConsD rotate1.simps(2) set_rotate1)
    with it assms(3) show False by (simp add: is_txn_def)
  qed
  with tx(1) show ?thesis by blast
qed

text \<open>
  Claim C4, as the code has it.  \<^verbatim>\<open>UHCIUIMDoDoneQueueProcessing\<close> walks the done chain
  once, as far as \<open>stopAt\<close>, and returns.  The chain is made of transactions (each a
  run of descriptors closed by the one flagged last of transaction), possibly
  followed by descriptors of a transaction whose last descriptor is not reached.
  Transaction by transaction and in chain order, every descriptor before the last one
  is deallocated in the iteration that visits it, so before the callback; at the last
  descriptor the completion is invoked, exactly once, with the forced error if there
  is one and else the first non-success descriptor status of the transaction, and
  with the sum over the descriptors of the transaction of maximum minus actual
  length; then the last descriptor is deallocated.  The status and the residual of
  a transaction do not depend on the transactions before it.  A last descriptor
  without callback handle is reported with \<^verbatim>\<open>USBError\<close>, and no completion is invoked
  for it; the statement covers the chains in which such a transaction, if any, is
  the last one.  After the call all visited descriptors are on the free list, behind
  those that were there and in the order of the chain, with a zero status word.
\<close>

theorem done_chain_dispatch:
  assumes "td_path (tds s) p (concat txns @ rest) stopAt"
      and "distinct (concat txns @ rest)"
      and "\<forall>t\<in>set (concat txns @ rest). stopAt \<noteq> Some t"
      and "\<forall>txn\<in>set txns. is_txn s txn"
      and "\<forall>t\<in>set rest. \<not> lastTDofTransaction (tds s t)"
      and "\<forall>txn\<in>set (butlast txns). handle s (last txn) \<noteq> None"
      and "\<forall>txn\<in>set txns. handle s (last txn) \<noteq> None \<longrightarrow> pQH (tds s (last txn)) \<noteq> None"
      and "tailQH s \<noteq> None"
      and "free_list s F"
      and "set F \<inter> set (concat txns @ rest) = {}"
  shows "\<exists>s'. UHCIUIMDoDoneQueueProcessing c p fe stopAt s = Some s'
           \<and> dispatch_events (events s') =
               dispatch_events (events s) @ concat (map (txn_events c s fe) txns)
                 @ map Deallocate rest
           \<and> free_list s' (F @ concat txns @ rest)
           \<and> (\<forall>t\<in>set (concat txns @ rest). ctrlStatus (tds s' t) = 0)"
proof -
  have pq: "\<forall>t\<in>set (concat txns @ rest).
              lastTDofTransaction (tds s t) \<and> handle s t \<noteq> None \<longrightarrow> pQH (tds s t) \<noteq> None"
  proof (intro ballI impI)
    fix t assume t: "t \<in> set (concat txns @ rest)"
      and l: "lastTDofTransaction (tds s t) \<and> handle s t \<noteq> None"
    with assms(5) have "t \<in> set (concat txns)" by auto
    from txn_last_only[OF assms(4) this] l obtain txn where "txn \<in> set txns" "t = last txn"
      by blast
    with assms(7) l show "pQH (tds s t) \<noteq> None" by blast
  qed
  from doneLoop_chain[OF assms(1,2,3) pq assms(8,9,10), of c fe kIOReturnSuccess 0]
  obtain s' where s': "doneLoop c fe stopAt p kIOReturnSuccess 0 s = Some s'"
    "dispatch_events (events s') =
       dispatch_events (events s) @ doneList c s fe kIOReturnSuccess 0 (concat txns @ rest)"
    "free_list s' (F @ concat txns @ rest)"
    "\<forall>t\<in>set (concat txns @ rest). ctrlStatus (tds s' t) = 0"
    by blast
  have "UHCIUIMDoDoneQueueProcessing c p fe stopAt s = Some s'"
    using s'(1) by (simp add: UHCIUIMDoDoneQueueProcessing_def)
  moreover have "dispatch_events (events s') =
               dispatch_events (events s) @ concat (map (txn_events c s fe) txns)
                 @ map Deallocate rest"
    using s'(2) unfolding doneList_txns[OF assms(4,6,5), of c fe] .
  ultimately show ?thesis using s'(3,4) by blast
qed

lemmas done_eval = done_s0_def done_tds_def td_blank_def qh_blank_def uhci_hw_def is_txn_def
  handle_def missing_handle_def txn_status_def txn_residual_def first_error_def txn_events_def
  kIOReturnSuccess_def dispatch_events_def free_list_def

text \<open>The witness: the chain of descriptors 1, 2, 3 above, with descriptor 9 on the
  free list.\<close>

theorem done_chain_dispatch_witness:
  "\<exists>s'. UHCIUIMDoDoneQueueProcessing uhci_hw (Some 1) kIOReturnSuccess None done_s0 = Some s'
      \<and> dispatch_events (events s') =
          [Deallocate 1, Complete 7 0xE000404F 120, Deallocate 2, Complete 8 0 0, Deallocate 3]
      \<and> free_list s' [9, 1, 2, 3]
      \<and> ctrlStatus (tds done_s0 1) = 0x400007 \<and> ctrlStatus (tds s' 1) = 0"
  using done_chain_dispatch[of done_s0 "Some 1" "[[1, 2], [3]]" "[]" None "[9]" uhci_hw
          kIOReturnSuccess]
  by (auto simp: done_eval)

text \<open>
  Against C4 as stated (a descriptor goes back to the pool only after the callback of
  its transaction): in the chain above, descriptor 1 is deallocated before the
  completion of command 7 is invoked.
\<close>

theorem dealloc_before_callback_counterexample:
  "\<exists>s'. UHCIUIMDoDoneQueueProcessing uhci_hw (Some 1) kIOReturnSuccess None done_s0 = Some s'
      \<and> events s' =
          [Deallocate 1, Complete 7 0xE000404F 120, Deallocate 2, Complete 8 0 0, Deallocate 3]"
  by (simp add: UHCIUIMDoDoneQueueProcessing_def doneLoop.simps doneStep_def DeallocateTD_def
                emit_def td_upd_def qh_upd_def qh_SetPhysicalLink_def Let_def done_eval)

text \<open>
  The two accumulators are reset in the branch that invokes the completion (lines
  1520--1521, under the comment that the next transaction starts afresh), and nowhere
  else: after a last descriptor without callback handle the completion of the next
  transaction, here that of command 8, is given the status and the residual of the
  transaction before it.
\<close>

lemma missing_handle_no_reset:
  "\<exists>s'. UHCIUIMDoDoneQueueProcessing uhci_hw (Some 1) kIOReturnSuccess None done_s1 = Some s'
      \<and> events s' =
          [Deallocate 1, USBError (NullCompletionAction 2), Deallocate 2,
           Complete 8 0xE000404F 120, Deallocate 3]"
  by (simp add: UHCIUIMDoDoneQueueProcessing_def doneLoop.simps doneStep_def DeallocateTD_def
                emit_def td_upd_def qh_upd_def qh_SetPhysicalLink_def Let_def done_s1_def done_eval)

end
